theory Spec2Isabelle
  imports Complex_Main "HOL-Library.Log_Nat"
begin

section \<open>Values shared by the example programs\<close>

text \<open>
  The repository consists of stand-alone TypeScript example programs built on an agent SDK:
  a multi-agent orchestrator with a \<^verbatim>\<open>TaskManager\<close>, a parallel development manager,
  a marketing orchestrator (\<^verbatim>\<open>runAgent\<close>) and a test automation driver.
  Everything the programs obtain from outside (the wall clock, the file system, the events
  an agent session emits, the outcome of a test run) is an explicit parameter of the model,
  so that every definition below is a total, executable function of the program state and
  of what the environment answers.
\<close>

subsection \<open>JavaScript maps\<close>

text \<open>
  A JavaScript \<^verbatim>\<open>Map\<close> iterates in insertion order and \<^verbatim>\<open>set\<close> on an existing
  key keeps the position of that key. It is modelled as an association list.
\<close>

fun mapGet :: "('k \<times> 'v) list \<Rightarrow> 'k \<Rightarrow> 'v option" where
  "mapGet [] k = None"
| "mapGet ((k', v) # m) k = (if k' = k then Some v else mapGet m k)"

fun mapSet :: "'k \<Rightarrow> 'v \<Rightarrow> ('k \<times> 'v) list \<Rightarrow> ('k \<times> 'v) list" where
  "mapSet k v [] = [(k, v)]"
| "mapSet k v ((k', v') # m) = (if k' = k then (k, v) # m else (k', v') # mapSet k v m)"

definition mapValues :: "('k \<times> 'v) list \<Rightarrow> 'v list" where
  "mapValues m = map snd m"

definition mapKeys :: "('k \<times> 'v) list \<Rightarrow> 'k list" where
  "mapKeys m = map fst m"

subsection \<open>JavaScript values and their JSON form\<close>

text \<open>
  The values that occur in a task object: strings, \<^verbatim>\<open>Date\<close> objects (milliseconds since
  the epoch), arrays and objects (property lists in property order).
  \<open>toJSON fmt v\<close> is the JSON document that \<^verbatim>\<open>JSON.stringify(v)\<close> writes, as the tree the
  text denotes (and that \<^verbatim>\<open>JSON.parse\<close> returns for it): a \<^verbatim>\<open>Date\<close> is written as the
  string \<^verbatim>\<open>toISOString()\<close> gives, a property whose value is \<^verbatim>\<open>undefined\<close> is left out, an
  \<^verbatim>\<open>undefined\<close> array element is written \<^verbatim>\<open>null\<close>. The rendering \<^verbatim>\<open>toISOString\<close> is the
  parameter \<open>fmt\<close>.
\<close>

datatype jsvalue =
    JUndefined
  | JNull
  | JString string
  | JDate int
  | JArray "jsvalue list"
  | JObject "(string \<times> jsvalue) list"

fun toJSON :: "(int \<Rightarrow> string) \<Rightarrow> jsvalue \<Rightarrow> jsvalue" where
  "toJSON fmt (JDate d) = JString (fmt d)"
| "toJSON fmt (JArray vs) =
     JArray (map (\<lambda>v. case toJSON fmt v of JUndefined \<Rightarrow> JNull | w \<Rightarrow> w) vs)"
| "toJSON fmt (JObject ps) =
     JObject (filter (\<lambda>p. snd p \<noteq> JUndefined) (map (\<lambda>(k, v). (k, toJSON fmt v)) ps))"
| "toJSON fmt v = v"

subsection \<open>Session events\<close>

text \<open>
  The events of the SDK that the programs look at. \<^verbatim>\<open>event.data.content\<close> and
  \<^verbatim>\<open>event.data.message\<close> may be absent (\<open>None\<close>); every other event type is \<open>OtherEvent\<close>.
\<close>

datatype SessionEvent =
    AssistantMessage "string option"
  | ToolExecutionStart string
  | SessionIdle
  | ErrorEvent "string option"
  | OtherEvent string

text \<open>The JavaScript expression \<^verbatim>\<open>x || d\<close> on an optional string: the default replaces
  both \<^verbatim>\<open>undefined\<close> and the empty string.\<close>

fun orElse :: "string option \<Rightarrow> string \<Rightarrow> string" where
  "orElse None d = d"
| "orElse (Some s) d = (if s = [] then d else s)"

section \<open>The task manager of the multi-agent orchestrator\<close>

datatype Priority = High | Medium | Low

datatype Assignee = Developer | Tester

datatype Status = Pending | InProgress | Testing | Completed | Failed

record Task =
  taskId :: string
  description :: string
  priority :: Priority
  assignedTo :: Assignee
  status :: Status
  dependencies :: "string list"
  result :: "string option"
  startTime :: "int option"
  endTime :: "int option"

text \<open>
  \<^verbatim>\<open>Partial<Task>\<close>: each property is either absent (\<open>None\<close>) or carries a new value.
  For the three optional properties the new value may itself be \<^verbatim>\<open>undefined\<close>.
\<close>

record TaskUpdates =
  updId :: "string option"
  updDescription :: "string option"
  updPriority :: "Priority option"
  updAssignedTo :: "Assignee option"
  updStatus :: "Status option"
  updDependencies :: "string list option"
  updResult :: "string option option"
  updStartTime :: "int option option"
  updEndTime :: "int option option"

definition noUpdates :: TaskUpdates where
  "noUpdates = \<lparr> updId = None, updDescription = None, updPriority = None,
     updAssignedTo = None, updStatus = None, updDependencies = None,
     updResult = None, updStartTime = None, updEndTime = None \<rparr>"

text \<open>\<^verbatim>\<open>Object.assign(task, updates)\<close>: every property present in the updates overwrites
  the task's; there is no check of the task's current status.\<close>

definition assign :: "Task \<Rightarrow> TaskUpdates \<Rightarrow> Task" where
  "assign task u =
     \<lparr> taskId = (case updId u of None \<Rightarrow> taskId task | Some v \<Rightarrow> v),
       description = (case updDescription u of None \<Rightarrow> description task | Some v \<Rightarrow> v),
       priority = (case updPriority u of None \<Rightarrow> priority task | Some v \<Rightarrow> v),
       assignedTo = (case updAssignedTo u of None \<Rightarrow> assignedTo task | Some v \<Rightarrow> v),
       status = (case updStatus u of None \<Rightarrow> status task | Some v \<Rightarrow> v),
       dependencies = (case updDependencies u of None \<Rightarrow> dependencies task | Some v \<Rightarrow> v),
       result = (case updResult u of None \<Rightarrow> result task | Some v \<Rightarrow> v),
       startTime = (case updStartTime u of None \<Rightarrow> startTime task | Some v \<Rightarrow> v),
       endTime = (case updEndTime u of None \<Rightarrow> endTime task | Some v \<Rightarrow> v) \<rparr>"

subsection \<open>Environment and state\<close>

text \<open>
  The environment answers the program's questions in the order they are asked: the
  \<open>n\<close>-th interaction reads \<open>clock n\<close> when it is \<^verbatim>\<open>new Date()\<close>, succeeds as a file
  write iff \<open>writeSucceeds n\<close>, and is answered by \<open>respond session n\<close> when it is a
  prompt sent to a session (the send is rejected, or the session delivers a list of events).
  The state counts the interactions made so far (\<open>ticks\<close>) and holds the files written so
  far (\<open>disk\<close>, path to JSON document).
\<close>

datatype response = SendRejected string | Delivered "SessionEvent list"

datatype Session = SupervisorSession | DevSession | TestSession

record Env =
  clock :: "nat \<Rightarrow> int"
  toISOString :: "int \<Rightarrow> string"
  writeSucceeds :: "nat \<Rightarrow> bool"
  respond :: "Session \<Rightarrow> nat \<Rightarrow> response"

datatype error = WriteFailed string | SendFailed string

datatype completion = Normal | Throws error | NeverSettles

record TaskManager =
  tasks :: "(string \<times> Task) list"
  logFile :: string
  disk :: "(string \<times> jsvalue) list"
  ticks :: nat

definition newTaskManager :: "string \<Rightarrow> TaskManager" where
  "newTaskManager file = \<lparr> tasks = [], logFile = file, disk = [], ticks = 0 \<rparr>"

text \<open>The runtime object of a task: the required properties, then the optional ones
  that are set (listed in the order of the interface; the order in which properties were
  first assigned is not tracked).\<close>

definition optProp :: "string \<Rightarrow> 'a option \<Rightarrow> ('a \<Rightarrow> jsvalue) \<Rightarrow> (string \<times> jsvalue) list" where
  "optProp name v f = (case v of None \<Rightarrow> [] | Some x \<Rightarrow> [(name, f x)])"

fun priorityName :: "Priority \<Rightarrow> string" where
  "priorityName High = ''high''"
| "priorityName Medium = ''medium''"
| "priorityName Low = ''low''"

fun assigneeName :: "Assignee \<Rightarrow> string" where
  "assigneeName Developer = ''developer''"
| "assigneeName Tester = ''tester''"

fun statusName :: "Status \<Rightarrow> string" where
  "statusName Pending = ''pending''"
| "statusName InProgress = ''in-progress''"
| "statusName Testing = ''testing''"
| "statusName Completed = ''completed''"
| "statusName Failed = ''failed''"

definition taskObject :: "Task \<Rightarrow> jsvalue" where
  "taskObject t = JObject (
     [ (''id'', JString (taskId t)),
       (''description'', JString (description t)),
       (''priority'', JString (priorityName (priority t))),
       (''assignedTo'', JString (assigneeName (assignedTo t))),
       (''status'', JString (statusName (status t))),
       (''dependencies'', JArray (map JString (dependencies t))) ]
     @ optProp ''result'' (result t) JString
     @ optProp ''startTime'' (startTime t) JDate
     @ optProp ''endTime'' (endTime t) JDate)"

subsection \<open>Operations\<close>

definition getTask :: "TaskManager \<Rightarrow> string \<Rightarrow> Task option" where
  "getTask s k = mapGet (tasks s) k"

definition getAllTasks :: "TaskManager \<Rightarrow> Task list" where
  "getAllTasks s = mapValues (tasks s)"

text \<open>\<^verbatim>\<open>saveLog\<close>: reads the clock for the timestamp, then overwrites the log file with
  the timestamp and the full task list. A rejected write throws.\<close>

definition logObject :: "Env \<Rightarrow> TaskManager \<Rightarrow> jsvalue" where
  "logObject env s = JObject
     [ (''timestamp'', JString (toISOString env (clock env (ticks s)))),
       (''tasks'', JArray (map taskObject (mapValues (tasks s)))) ]"

definition saveLog :: "Env \<Rightarrow> TaskManager \<Rightarrow> completion \<times> TaskManager" where
  "saveLog env s =
     (let doc = toJSON (toISOString env) (logObject env s) in
      if writeSucceeds env (ticks s + 1)
      then (Normal, s\<lparr> disk := mapSet (logFile s) doc (disk s), ticks := ticks s + 2 \<rparr>)
      else (Throws (WriteFailed (logFile s)), s\<lparr> ticks := ticks s + 2 \<rparr>))"

definition addTask :: "Env \<Rightarrow> Task \<Rightarrow> TaskManager \<Rightarrow> completion \<times> TaskManager" where
  "addTask env task s = saveLog env (s\<lparr> tasks := mapSet (taskId task) task (tasks s) \<rparr>)"

definition updateTask :: "Env \<Rightarrow> string \<Rightarrow> TaskUpdates \<Rightarrow> TaskManager \<Rightarrow> completion \<times> TaskManager" where
  "updateTask env k updates s =
     (case mapGet (tasks s) k of
        Some task \<Rightarrow> saveLog env (s\<lparr> tasks := mapSet k (assign task updates) (tasks s) \<rparr>)
      | None \<Rightarrow> (Normal, s))"

definition depCompleted :: "(string \<times> Task) list \<Rightarrow> string \<Rightarrow> bool" where
  "depCompleted m depId = (case mapGet m depId of None \<Rightarrow> False | Some dep \<Rightarrow> status dep = Completed)"

definition isReady :: "(string \<times> Task) list \<Rightarrow> Task \<Rightarrow> bool" where
  "isReady m task = (if status task \<noteq> Pending then False
                     else list_all (depCompleted m) (dependencies task))"

definition getReadyTasks :: "TaskManager \<Rightarrow> Task list" where
  "getReadyTasks s = filter (isReady (tasks s)) (getAllTasks s)"


section \<open>The multi-agent orchestrator\<close>

text \<open>
  \<^verbatim>\<open>executeTask\<close> waits on a promise that a listener resolves on the first
  \<^verbatim>\<open>session.idle\<close> event with the content of the last \<^verbatim>\<open>assistant.message\<close> before
  it. There is neither a timeout nor an error branch: when no idle event comes, the promise
  never settles (\<open>None\<close>).
\<close>

fun awaitIdle :: "string \<Rightarrow> SessionEvent list \<Rightarrow> string option" where
  "awaitIdle res [] = None"
| "awaitIdle res (AssistantMessage c # es) = awaitIdle (orElse c []) es"
| "awaitIdle res (SessionIdle # es) = Some res"
| "awaitIdle res (e # es) = awaitIdle res es"

definition tick :: "TaskManager \<Rightarrow> TaskManager" where
  "tick s = s\<lparr> ticks := ticks s + 1 \<rparr>"

text \<open>
  \<^verbatim>\<open>executeTask(task, session)\<close>: mark the task in progress (the start time is read from
  the clock before \<^verbatim>\<open>updateTask\<close> runs), send the prompt, wait for the session to go
  idle, mark the task completed with the result. The prompt quotes the task's id,
  description and priority only, none of which the updates made here change, so the task is
  passed by value.
\<close>

definition executeTask :: "Env \<Rightarrow> Session \<Rightarrow> Task \<Rightarrow> TaskManager \<Rightarrow> completion \<times> TaskManager" where
  "executeTask env session task s =
     (let started = noUpdates\<lparr> updStatus := Some InProgress,
                                updStartTime := Some (Some (clock env (ticks s))) \<rparr> in
      case updateTask env (taskId task) started (tick s) of
        (Normal, s1) \<Rightarrow>
          (case respond env session (ticks s1) of
             SendRejected msg \<Rightarrow> (Throws (SendFailed msg), tick s1)
           | Delivered events \<Rightarrow>
               (case awaitIdle [] events of
                  None \<Rightarrow> (NeverSettles, tick s1)
                | Some res \<Rightarrow>
                    (let s2 = tick s1;
                         finished = noUpdates\<lparr> updStatus := Some Completed,
                                       updEndTime := Some (Some (clock env (ticks s2))),
                                       updResult := Some (Some res) \<rparr>
                     in updateTask env (taskId task) finished (tick s2))))
      | (c, s1) \<Rightarrow> (c, s1))"

text \<open>
  The loops return, besides the completion and the final state, the list of dispatches:
  each call of \<^verbatim>\<open>executeTask\<close> with the task handed to it and the task map at the moment
  of the call. The list is an observation of the run; nothing reads it.
\<close>

type_synonym dispatch = "Task \<times> (string \<times> Task) list"

fun executeEach :: "Env \<Rightarrow> Task list \<Rightarrow> TaskManager \<Rightarrow> completion \<times> TaskManager \<times> dispatch list" where
  "executeEach env [] s = (Normal, s, [])"
| "executeEach env (task # rest) s =
     (case executeTask env DevSession task s of
        (Normal, s') \<Rightarrow>
          (case executeEach env rest s' of (c, s'', ds) \<Rightarrow> (c, s'', (task, tasks s) # ds))
      | (c, s') \<Rightarrow> (c, s', [(task, tasks s)]))"

definition executeDevelopmentTasks :: "Env \<Rightarrow> TaskManager \<Rightarrow> completion \<times> TaskManager \<times> dispatch list" where
  "executeDevelopmentTasks env s =
     (let readyTasks = filter (\<lambda>t. assignedTo t = Developer) (getReadyTasks s)
      in executeEach env readyTasks s)"

fun testEach :: "Env \<Rightarrow> Task list \<Rightarrow> TaskManager \<Rightarrow> completion \<times> TaskManager \<times> dispatch list" where
  "testEach env [] s = (Normal, s, [])"
| "testEach env (task # rest) s =
     (let readyTasks = getReadyTasks s in
      case find (\<lambda>t. taskId t = taskId task) readyTasks of
        Some found \<Rightarrow>
          (case executeTask env TestSession task s of
             (Normal, s') \<Rightarrow>
               (case testEach env rest s' of (c, s'', ds) \<Rightarrow> (c, s'', (task, tasks s) # ds))
           | (c, s') \<Rightarrow> (c, s', [(task, tasks s)]))
      | None \<Rightarrow> testEach env rest s)"

definition executeTestingTasks :: "Env \<Rightarrow> TaskManager \<Rightarrow> completion \<times> TaskManager \<times> dispatch list" where
  "executeTestingTasks env s =
     (let testTasks = filter (\<lambda>t. assignedTo t = Tester) (getAllTasks s)
      in testEach env testTasks s)"

text \<open>Steps 2 and 3 of \<^verbatim>\<open>processProject\<close>: the development tasks, then the testing tasks.\<close>

definition executeAllTasks :: "Env \<Rightarrow> TaskManager \<Rightarrow> completion \<times> TaskManager \<times> dispatch list" where
  "executeAllTasks env s =
     (case executeDevelopmentTasks env s of
        (Normal, s', ds) \<Rightarrow>
          (case executeTestingTasks env s' of (c, s'', ds') \<Rightarrow> (c, s'', ds @ ds'))
      | (c, s', ds) \<Rightarrow> (c, s', ds))"


section \<open>Waiting for a session with a timeout\<close>

text \<open>
  The parallel development manager and the test automation driver wait on a promise with
  three ways to settle: the listener resolves it on \<^verbatim>\<open>session.idle\<close> (unless an error
  was seen), rejects it on \<^verbatim>\<open>error\<close>, and a timer rejects it when it fires. A promise
  settles once: later calls of \<^verbatim>\<open>resolve\<close> and \<^verbatim>\<open>reject\<close> do nothing.
  The input of the model is the list of events delivered before the timer is due; the timer
  fires after them unless \<^verbatim>\<open>clearTimeout\<close> was called.
  \<open>settled\<close> is \<open>None\<close> while the promise is pending, \<open>Some (Inr v)\<close> once resolved with
  \<open>v\<close> and \<open>Some (Inl msg)\<close> once rejected with an \<^verbatim>\<open>Error\<close> whose message is \<open>msg\<close>.
\<close>

record Waiting =
  received :: string
  hasError :: bool
  timerCleared :: bool
  settled :: "(string + string) option"

definition waiting :: Waiting where
  "waiting = \<lparr> received = [], hasError = False, timerCleared = False, settled = None \<rparr>"

definition settle :: "string + string \<Rightarrow> Waiting \<Rightarrow> Waiting" where
  "settle v w = (case settled w of None \<Rightarrow> w\<lparr> settled := Some v \<rparr> | Some old \<Rightarrow> w)"

definition timerFires :: "string \<Rightarrow> Waiting \<Rightarrow> Waiting" where
  "timerFires msg w = (if timerCleared w then w else settle (Inl msg) w)"

text \<open>The message texts of the source, as UTF-8 bytes.\<close>

definition taskTimeoutText :: string where
  "taskTimeoutText = [CHR 0xE4, CHR 0xBB, CHR 0xBB, CHR 0xE5, CHR 0x8B, CHR 0x99, CHR 0xE5,
     CHR 0x9F, CHR 0xB7, CHR 0xE8, CHR 0xA1, CHR 0x8C, CHR 0xE8, CHR 0xB6, CHR 0x85, CHR 0xE6,
     CHR 0x99, CHR 0x82]"


definition executionErrorText :: string where
  "executionErrorText = [CHR 0xE5, CHR 0x9F, CHR 0xB7, CHR 0xE8, CHR 0xA1, CHR 0x8C, CHR 0xE9,
     CHR 0x8C, CHR 0xAF, CHR 0xE8, CHR 0xAA, CHR 0xA4]"

section \<open>The parallel development manager\<close>

datatype TaskType = Frontend | Backend | Database | TestingTasks

datatype DevStatus = DevPending | DevRunning | DevCompleted | DevFailed

record DevelopmentTask =
  devId :: string
  devType :: TaskType
  devDescription :: string
  files :: "string list"
  devStatus :: DevStatus
  devOutput :: "string option"
  devError :: "string option"

text \<open>The listener of \<^verbatim>\<open>ParallelDevelopmentManager.executeTask\<close>: message contents are
  appended to \<^verbatim>\<open>output\<close>.\<close>

fun onTaskEvent :: "Waiting \<Rightarrow> SessionEvent \<Rightarrow> Waiting" where
  "onTaskEvent w (AssistantMessage c) = w\<lparr> received := received w @ orElse c [] \<rparr>"
| "onTaskEvent w (ErrorEvent m) =
     settle (Inl (orElse m executionErrorText)) (w\<lparr> hasError := True, timerCleared := True \<rparr>)"
| "onTaskEvent w SessionIdle =
     (let w' = w\<lparr> timerCleared := True \<rparr>
      in if \<not> hasError w' then settle (Inr (received w')) w' else w')"
| "onTaskEvent w e = w"

definition awaitTask :: "SessionEvent list \<Rightarrow> (string + string) option" where
  "awaitTask events = settled (timerFires taskTimeoutText (foldl onTaskEvent waiting events))"

text \<open>
  What the environment does while one task is executed: the events its listener receives
  before the five-minute timer is due, and whether the \<^verbatim>\<open>session.send\<close> that follows the
  wait is rejected (with which message). Each map entry is executed once, so the
  environment is indexed by the entry's key.
\<close>

record LaneEnv =
  eventsFor :: "string \<Rightarrow> SessionEvent list"
  sendRejectedFor :: "string \<Rightarrow> string option"

type_synonym devTasks = "(string \<times> DevelopmentTask) list"

definition addDevTask :: "DevelopmentTask \<Rightarrow> devTasks \<Rightarrow> devTasks" where
  "addDevTask task m = mapSet (devId task) task m"

text \<open>
  \<^verbatim>\<open>executeTask(session, task, sessionType)\<close> on the task object stored under key \<open>k\<close>:
  the status becomes running; the wait is awaited first and the prompt is sent after it;
  any rejection is caught and makes the task failed with the error's message.
\<close>

definition finishTask :: "SessionEvent list \<Rightarrow> string option \<Rightarrow> DevelopmentTask \<Rightarrow> DevelopmentTask option" where
  "finishTask events sendRejected task =
     (let running = task\<lparr> devStatus := DevRunning \<rparr> in
      case awaitTask events of
        None \<Rightarrow> None
      | Some (Inl msg) \<Rightarrow> Some (running\<lparr> devStatus := DevFailed, devError := Some msg \<rparr>)
      | Some (Inr res) \<Rightarrow>
          (case sendRejected of
             Some msg \<Rightarrow> Some (running\<lparr> devStatus := DevFailed, devError := Some msg \<rparr>)
           | None \<Rightarrow> Some (running\<lparr> devStatus := DevCompleted, devOutput := Some res \<rparr>)))"

definition executeDevTask :: "LaneEnv \<Rightarrow> string \<Rightarrow> devTasks \<Rightarrow> completion \<times> devTasks" where
  "executeDevTask env k m =
     (case mapGet m k of
        None \<Rightarrow> (Normal, m)
      | Some task \<Rightarrow>
          (case finishTask (eventsFor env k) (sendRejectedFor env k) task of
             None \<Rightarrow> (NeverSettles, mapSet k (task\<lparr> devStatus := DevRunning \<rparr>) m)
           | Some fin \<Rightarrow> (Normal, mapSet k fin m)))"

fun executeTasksInSession :: "LaneEnv \<Rightarrow> string list \<Rightarrow> devTasks \<Rightarrow> completion \<times> devTasks" where
  "executeTasksInSession env [] m = (Normal, m)"
| "executeTasksInSession env (k # ks) m =
     (case executeDevTask env k m of
        (Normal, m') \<Rightarrow> executeTasksInSession env ks m'
      | (c, m') \<Rightarrow> (c, m'))"

definition tasksByType :: "devTasks \<Rightarrow> TaskType \<Rightarrow> string list" where
  "tasksByType m ty = map fst (filter (\<lambda>(k, task). devType task = ty) m)"

text \<open>
  \<^verbatim>\<open>executeTasksInParallel\<close> starts one lane per task type and awaits them all. A lane
  changes only the task objects of its own type, so the lanes are run here one after the
  other, in the order of the source's \<^verbatim>\<open>tasksByType\<close> record; a lane that never settles
  does not stop the others, but the whole call then never settles either.
\<close>

fun runLanes :: "LaneEnv \<Rightarrow> string list list \<Rightarrow> devTasks \<Rightarrow> completion \<times> devTasks" where
  "runLanes env [] m = (Normal, m)"
| "runLanes env (lane # lanes) m =
     (case executeTasksInSession env lane m of
        (c, m') \<Rightarrow>
          (case runLanes env lanes m' of
             (c', m'') \<Rightarrow> (if c = Normal then c' else c, m'')))"

definition executeTasksInParallel :: "LaneEnv \<Rightarrow> devTasks \<Rightarrow> completion \<times> devTasks" where
  "executeTasksInParallel env m =
     runLanes env (map (tasksByType m) [Frontend, Backend, Database, TestingTasks]) m"


section \<open>The test automation driver\<close>

subsection \<open>\<^verbatim>\<open>sendAndWait\<close>\<close>




subsection \<open>Test results\<close>

datatype TestStatus = Passed | TestFailed | Skipped | OtherStatus string

record TestResult =
  testFile :: string
  testSuite :: string
  testName :: string
  testStatus :: TestStatus
  testDuration :: int
  testError :: "string option"

text \<open>The coverage percentages of a report are only printed; they are left out.\<close>

record TestReport =
  totalTests :: nat
  passed :: nat
  failed :: nat
  skipped :: nat
  duration :: int
  results :: "TestResult list"







subsection \<open>The test cycle\<close>


















section \<open>The marketing orchestrator's \<^verbatim>\<open>runAgent\<close>\<close>






section \<open>Progress of the task manager\<close>

text \<open>
  \<^verbatim>\<open>getProgress\<close> computes \<^verbatim>\<open>Math.round((completed / total) * 100)\<close> on JavaScript
  numbers, which are IEEE 754 double-precision values: the quotient is rounded to a double,
  and so is the product. A finite double is a rational number, so the arithmetic is modelled
  on \<open>rat\<close>: \<open>roundDouble x\<close> is the double nearest to \<open>x\<close> (53 significant bits, ties
  to the even significand). The exponent range is not bounded in the model; the quotients
  and products of task counts stay far inside the range of normal doubles.
  \<^verbatim>\<open>Math.round\<close> rounds to the nearest integer, a tie towards \<open>+\<infinity>\<close>.
\<close>

definition exponentOf :: "rat \<Rightarrow> int" where
  "exponentOf x =
     (let (a, b) = quotient_of x;
          d = bitlen a - bitlen b
      in if 2 powi d \<le> x then d else d - 1)"

definition roundHalfEven :: "rat \<Rightarrow> int" where
  "roundHalfEven q =
     (let f = \<lfloor>q\<rfloor>; r = q - of_int f
      in if r < 1 / 2 then f else if 1 / 2 < r then f + 1 else if even f then f else f + 1)"

definition roundDouble :: "rat \<Rightarrow> rat" where
  "roundDouble x =
     (if x = 0 then 0
      else let u = 2 powi (exponentOf \<bar>x\<bar> - 52)
           in sgn x * of_int (roundHalfEven (\<bar>x\<bar> / u)) * u)"

definition mathRound :: "rat \<Rightarrow> int" where
  "mathRound y = \<lfloor>y + 1 / 2\<rfloor>"

record Progress =
  progressTotal :: nat
  progressCompleted :: nat
  progressFailed :: nat
  percentage :: int

definition getProgress :: "TaskManager \<Rightarrow> Progress" where
  "getProgress s =
     (let ts = getAllTasks s;
          n = length ts;
          completed = length (filter (\<lambda>t. status t = Completed) ts);
          failed = length (filter (\<lambda>t. status t = Failed) ts)
      in \<lparr> progressTotal = n,
           progressCompleted = completed,
           progressFailed = failed,
           percentage = (if n > 0
                         then mathRound (roundDouble (roundDouble (of_nat completed / of_nat n) * 100))
                         else 0) \<rparr>)"

section \<open>Example inputs\<close>

text \<open>
  A clock that advances by one millisecond per reading, a disk that accepts every write,
  sessions that answer every prompt with one message and go idle. The date rendering of
  the examples writes a sign and one stroke per millisecond; it stands in for
  \<^verbatim>\<open>toISOString\<close>, of which only injectivity is ever used.
\<close>

definition strokes :: "int \<Rightarrow> string" where
  "strokes d = (if d < 0 then ''-'' else ''+'') @ replicate (nat \<bar>d\<bar>) (CHR ''I'')"

definition calmEnv :: Env where
  "calmEnv = \<lparr> clock = (\<lambda>n. int n), toISOString = strokes, writeSucceeds = (\<lambda>n. True),
               respond = (\<lambda>session n. Delivered [AssistantMessage (Some ''ok''), SessionIdle]) \<rparr>"

definition mkTask :: "string \<Rightarrow> Priority \<Rightarrow> Assignee \<Rightarrow> Status \<Rightarrow> string list \<Rightarrow> Task" where
  "mkTask k p a st deps =
     \<lparr> taskId = k, description = ''task '' @ k, priority = p, assignedTo = a, status = st,
       dependencies = deps, result = None, startTime = None, endTime = None \<rparr>"

definition emptyManager :: TaskManager where
  "emptyManager = newTaskManager ''./task-log.json''"

text \<open>\<^verbatim>\<open>createSampleTasks\<close> adds its five tasks one after the other (the descriptions
  are abbreviated here); the sample manager holds the task map it leaves
  (\<open>createSampleTasks_tasks\<close>), in a fresh environment.\<close>

definition sampleTasks :: "Task list" where
  "sampleTasks =
     [ mkTask ''T1'' High Developer Pending [],
       mkTask ''T2'' High Developer Pending [],
       mkTask ''T3'' High Tester Pending [''T1''],
       mkTask ''T4'' Medium Developer Pending [''T2''],
       mkTask ''T5'' Medium Tester Pending [''T4''] ]"

fun addEach :: "Env \<Rightarrow> Task list \<Rightarrow> TaskManager \<Rightarrow> completion \<times> TaskManager" where
  "addEach env [] s = (Normal, s)"
| "addEach env (task # rest) s =
     (case addTask env task s of
        (Normal, s') \<Rightarrow> addEach env rest s'
      | (c, s') \<Rightarrow> (c, s'))"

definition createSampleTasks :: "Env \<Rightarrow> TaskManager \<Rightarrow> completion \<times> TaskManager" where
  "createSampleTasks env s = addEach env sampleTasks s"

definition sampleManager :: TaskManager where
  "sampleManager = emptyManager\<lparr> tasks := map (\<lambda>t. (taskId t, t)) sampleTasks \<rparr>"

section \<open>Properties of runs\<close>

text \<open>
  The map of a task manager is keyed by task id: \<^verbatim>\<open>addTask\<close> stores every task under
  its own id, and no update made by the orchestrator changes an id. Keys of a \<^verbatim>\<open>Map\<close> are
  distinct.
\<close>

definition wfTasks :: "(string \<times> Task) list \<Rightarrow> bool" where
  "wfTasks m = (distinct (map fst m) \<and> (\<forall>(k, t) \<in> set m. taskId t = k))"

text \<open>The task managers the orchestrator can hold: a new one, one after a task was added,
  one after a run of the development tasks, the testing tasks or both.\<close>

inductive built :: "Env \<Rightarrow> TaskManager \<Rightarrow> bool" for env :: Env where
  built_new: "built env (newTaskManager file)"
| built_add: "built env s \<Longrightarrow> built env (snd (addTask env task s))"
| built_dev: "built env s \<Longrightarrow> built env (fst (snd (executeDevelopmentTasks env s)))"
| built_test: "built env s \<Longrightarrow> built env (fst (snd (executeTestingTasks env s)))"
| built_all: "built env s \<Longrightarrow> built env (fst (snd (executeAllTasks env s)))"

text \<open>At a dispatch, the task handed to \<^verbatim>\<open>executeTask\<close> is the map's current entry for
  its id and passes the filter of \<^verbatim>\<open>getReadyTasks\<close>.\<close>

definition readyAt :: "dispatch \<Rightarrow> bool" where
  "readyAt d = (mapGet (snd d) (taskId (fst d)) = Some (fst d) \<and> isReady (snd d) (fst d))"

text \<open>Every task that is not pending in \<open>m\<close> is held unchanged, under the same key,
  in \<open>m'\<close>.\<close>

definition settledKept :: "(string \<times> Task) list \<Rightarrow> (string \<times> Task) list \<Rightarrow> bool" where
  "settledKept m m' = (\<forall>k t. mapGet m k = Some t \<and> status t \<noteq> Pending \<longrightarrow> mapGet m' k = Some t)"

text \<open>What a run of the orchestrator's loops maintains.\<close>

definition runInvariant :: "(string \<times> Task) list \<Rightarrow> TaskManager \<times> dispatch list \<Rightarrow> bool" where
  "runInvariant m r = (list_all readyAt (snd r) \<and> wfTasks (tasks (fst r)) \<and> settledKept m (tasks (fst r)))"

text \<open>The dispatches of a run.\<close>

definition dispatches :: "completion \<times> TaskManager \<times> dispatch list \<Rightarrow> dispatch list" where
  "dispatches r = snd (snd r)"

text \<open>The dispatched task is one of the tasks \<^verbatim>\<open>getReadyTasks()\<close> returns on the map
  of that moment.\<close>

definition selectedFromReady :: "dispatch \<Rightarrow> bool" where
  "selectedFromReady d = (fst d \<in> set (filter (isReady (snd d)) (mapValues (snd d))))"

text \<open>Every dependency of the dispatched task is in the map of that moment, completed.\<close>

definition dependenciesCompleted :: "dispatch \<Rightarrow> bool" where
  "dependenciesCompleted d =
     (\<forall>depId \<in> set (dependencies (fst d)).
        \<exists>dep. mapGet (snd d) depId = Some dep \<and> status dep = Completed)"

text \<open>The order the specification describes for the ready tasks: high before medium
  before low.\<close>

fun priorityRank :: "Priority \<Rightarrow> nat" where
  "priorityRank High = 0"
| "priorityRank Medium = 1"
| "priorityRank Low = 2"

definition orderedByPriority :: "Task list \<Rightarrow> bool" where
  "orderedByPriority ts = sorted (map (\<lambda>t. priorityRank (priority t)) ts)"

text \<open>Example states of the task manager: a low-priority task added before a
  high-priority one; a second task with the id of \<open>T1\<close> that depends on itself; a task
  in a dependency cycle with itself; the sample graph with \<open>T1\<close> marked failed; the sample
  graph after one run of the orchestrator.\<close>

definition lowThenHigh :: TaskManager where
  "lowThenHigh =
     snd (addTask calmEnv (mkTask ''B'' High Developer Pending [])
       (snd (addTask calmEnv (mkTask ''A'' Low Developer Pending []) emptyManager)))"

definition duplicateOfT1 :: Task where
  "duplicateOfT1 = mkTask ''T1'' Low Tester Pending [''T1'']"

definition cyclicT6 :: Task where
  "cyclicT6 = mkTask ''T6'' Low Tester Pending [''T5'', ''T6'']"

definition failedT1 :: TaskManager where
  "failedT1 = snd (updateTask calmEnv ''T1'' (noUpdates\<lparr> updStatus := Some Failed \<rparr>) sampleManager)"

definition retried :: TaskUpdates where
  "retried = noUpdates\<lparr> updStatus := Some InProgress, updDescription := Some ''rewritten'' \<rparr>"

definition ranManager :: TaskManager where
  "ranManager = fst (snd (executeAllTasks calmEnv sampleManager))"

text \<open>The events that end a wait of the parallel development manager.\<close>

fun terminalEvent :: "SessionEvent \<Rightarrow> bool" where
  "terminalEvent SessionIdle = True"
| "terminalEvent (ErrorEvent m) = True"
| "terminalEvent e = False"

text \<open>While a promise is pending, its timer is still armed and no error was seen.\<close>

definition armed :: "Waiting \<Rightarrow> bool" where
  "armed w = (settled w = None \<longrightarrow> \<not> timerCleared w \<and> \<not> hasError w)"

text \<open>The state in which the task held under key \<open>k\<close> ends, as a function of its own
  events only.\<close>

definition finished :: "LaneEnv \<Rightarrow> devTasks \<Rightarrow> string \<Rightarrow> DevelopmentTask option" where
  "finished env m k =
     (case mapGet m k of
        None \<Rightarrow> None
      | Some task \<Rightarrow> finishTask (eventsFor env k) (sendRejectedFor env k) task)"

text \<open>A run over the keys \<open>ks\<close> completes normally, keeps the keys of the map, finishes
  the tasks under \<open>ks\<close> and leaves every other task as it was.\<close>

definition laneResult :: "LaneEnv \<Rightarrow> string set \<Rightarrow> devTasks \<Rightarrow> completion \<times> devTasks \<Rightarrow> bool" where
  "laneResult env ks m r =
     (fst r = Normal \<and> mapKeys (snd r) = mapKeys m \<and>
      (\<forall>k. mapGet (snd r) k = (if k \<in> ks then finished env m k else mapGet m k)))"

text \<open>Example inputs of the parallel development manager: two frontend tasks and a backend
  task; a session that never finishes the first frontend task; sessions that deliver
  nothing at all.\<close>

definition devTask :: "string \<Rightarrow> TaskType \<Rightarrow> DevelopmentTask" where
  "devTask k ty = \<lparr> devId = k, devType = ty, devDescription = ''work on '' @ k, files = [],
                    devStatus = DevPending, devOutput = None, devError = None \<rparr>"

definition threeDevTasks :: devTasks where
  "threeDevTasks =
     addDevTask (devTask ''FE-002'' Frontend)
       (addDevTask (devTask ''BE-001'' Backend)
         (addDevTask (devTask ''FE-001'' Frontend) []))"

definition stallingEnv :: LaneEnv where
  "stallingEnv =
     \<lparr> eventsFor = (\<lambda>k. if k = ''FE-001'' then [AssistantMessage (Some ''partial'')]
                          else [AssistantMessage (Some ''done''), SessionIdle]),
       sendRejectedFor = (\<lambda>k. None) \<rparr>"

definition silentEnv :: LaneEnv where
  "silentEnv = \<lparr> eventsFor = (\<lambda>k. []), sendRejectedFor = (\<lambda>k. None) \<rparr>"





















text \<open>The percentage the specification describes: \<open>100 * completed / total\<close> as an exact
  quotient, rounded to the nearest integer, a tie upwards as \<^verbatim>\<open>Math.round\<close> does.\<close>

definition exactPercentage :: "TaskManager \<Rightarrow> rat" where
  "exactPercentage s =
     100 * of_nat (length (filter (\<lambda>t. status t = Completed) (getAllTasks s)))
       / of_nat (length (getAllTasks s))"

definition roundedPercentage :: "TaskManager \<Rightarrow> int" where
  "roundedPercentage s = \<lfloor>exactPercentage s + 1 / 2\<rfloor>"

text \<open>Forty tasks, of which the first twenty-three are completed.\<close>

definition fortyTasks :: TaskManager where
  "fortyTasks = emptyManager\<lparr> tasks :=
      map (\<lambda>i. (''T'' @ replicate i (CHR ''i''),
                 mkTask (''T'' @ replicate i (CHR ''i'')) Medium Developer
                   (if i < 23 then Completed else Pending) []))
          [0..<40] \<rparr>"

section \<open>Maps and the task manager\<close>

lemma mapGet_mapSet: "mapGet (mapSet k v m) k' = (if k' = k then Some v else mapGet m k')"
  by (induction m) auto

lemma mapGet_None_iff: "mapGet m k = None \<longleftrightarrow> k \<notin> fst ` set m"
  by (induction m) (auto simp: image_iff split: if_splits)

lemma mapGet_Some_mem: "mapGet m k = Some v \<Longrightarrow> (k, v) \<in> set m"
  by (induction m) (auto split: if_splits)

lemma mapGet_distinct: "distinct (map fst m) \<Longrightarrow> (k, v) \<in> set m \<Longrightarrow> mapGet m k = Some v"
  by (induction m) (auto simp: image_iff)

lemma mapSet_keys:
  "map fst (mapSet k v m) = (if k \<in> fst ` set m then map fst m else map fst m @ [k])"
  by (induction m) force+

lemma mapSet_set: "set (mapSet k v m) \<subseteq> insert (k, v) (set m)"
  by (induction m) (auto split: if_splits)

lemma saveLog_tasks: "tasks (snd (saveLog env s)) = tasks s"
  by (simp add: saveLog_def Let_def)

lemma saveLog_completion:
  "fst (saveLog env s) = Normal \<or> fst (saveLog env s) = Throws (WriteFailed (logFile s))"
  by (simp add: saveLog_def Let_def)

lemma addTask_tasks: "tasks (snd (addTask env task s)) = mapSet (taskId task) task (tasks s)"
  by (simp add: addTask_def saveLog_tasks)

lemma updateTask_tasks:
  "tasks (snd (updateTask env k u s)) =
     (case mapGet (tasks s) k of None \<Rightarrow> tasks s | Some t \<Rightarrow> mapSet k (assign t u) (tasks s))"
  by (simp add: updateTask_def saveLog_tasks split: option.splits)

lemma wfTasks_mapSet: "wfTasks m \<Longrightarrow> taskId v = k \<Longrightarrow> wfTasks (mapSet k v m)"
  unfolding wfTasks_def using mapSet_set[of k v m] by (auto simp: mapSet_keys)

lemma wfTasks_get: "wfTasks m \<Longrightarrow> t \<in> set (mapValues m) \<Longrightarrow> mapGet m (taskId t) = Some t"
  unfolding wfTasks_def mapValues_def by (auto intro!: mapGet_distinct)

lemma wfTasks_get_id: "wfTasks m \<Longrightarrow> mapGet m k = Some t \<Longrightarrow> taskId t = k"
  unfolding wfTasks_def by (auto dest!: mapGet_Some_mem)

lemma wfTasks_distinct_ids: "wfTasks m \<Longrightarrow> distinct (map taskId (mapValues m))"
proof -
  assume w: "wfTasks m"
  then have "map taskId (mapValues m) = map fst m"
    unfolding wfTasks_def mapValues_def by (auto)
  with w show ?thesis by (simp add: wfTasks_def)
qed


lemma mapSet_mapSet: "mapSet k v (mapSet k w m) = mapSet k v m"
  by (induction m) auto

lemma isReady_iff:
  "isReady m task \<longleftrightarrow>
     status task = Pending \<and>
     (\<forall>depId \<in> set (dependencies task). \<exists>dep. mapGet m depId = Some dep \<and> status dep = Completed)"
  by (auto simp: isReady_def depCompleted_def list_all_iff split: option.splits)

lemma executeTask_effect:
  assumes "executeTask env sess task s = (c, s')"
  shows "(mapGet (tasks s) (taskId task) = None \<and> tasks s' = tasks s) \<or>
         (\<exists>t t'. mapGet (tasks s) (taskId task) = Some t \<and>
                 tasks s' = mapSet (taskId task) t' (tasks s) \<and>
                 taskId t' = taskId t \<and> dependencies t' = dependencies t \<and>
                 status t' \<noteq> Pending \<and> (c = Normal \<longrightarrow> status t' = Completed))"
proof (cases "mapGet (tasks s) (taskId task)")
  case None
  with assms show ?thesis
    by (auto simp: executeTask_def updateTask_def tick_def Let_def
             split: response.splits option.splits)
next
  case (Some t)
  with assms show ?thesis
    by (auto simp: executeTask_def updateTask_def saveLog_def tick_def Let_def assign_def
                   noUpdates_def mapGet_mapSet mapSet_mapSet
             split: response.splits option.splits if_splits)
qed

lemma executeTask_other:
  assumes "executeTask env sess task s = (c, s')" and "k \<noteq> taskId task"
  shows "mapGet (tasks s') k = mapGet (tasks s) k"
  using executeTask_effect[OF assms(1)] assms(2) by (auto simp: mapGet_mapSet)

lemma executeTask_self:
  assumes "executeTask env sess task s = (c, s')" and "mapGet (tasks s) (taskId task) = Some t"
  shows "\<exists>t'. mapGet (tasks s') (taskId task) = Some t' \<and> status t' \<noteq> Pending"
  using executeTask_effect[OF assms(1)] assms(2) by (auto simp: mapGet_mapSet)

lemma executeTask_wf:
  assumes "executeTask env sess task s = (c, s')" and "wfTasks (tasks s)"
  shows "wfTasks (tasks s')"
proof -
  from executeTask_effect[OF assms(1)] show ?thesis
  proof (elim disjE exE conjE)
    assume "tasks s' = tasks s"
    then show ?thesis using assms(2) by simp
  next
    fix t t'
    assume g: "mapGet (tasks s) (taskId task) = Some t"
      and eq: "tasks s' = mapSet (taskId task) t' (tasks s)"
      and same: "taskId t' = taskId t"
    have "taskId t = taskId task" using wfTasks_get_id[OF assms(2) g] .
    then show ?thesis using wfTasks_mapSet[OF assms(2), of t' "taskId task"] eq same by simp
  qed
qed


lemma settledKept_refl: "settledKept m m"
  by (simp add: settledKept_def)

lemma settledKept_trans: "settledKept m m' \<Longrightarrow> settledKept m' m'' \<Longrightarrow> settledKept m m''"
  by (simp add: settledKept_def)

lemma executeTask_settledKept:
  assumes ex: "executeTask env sess task s = (c, s')"
    and mine: "mapGet (tasks s) (taskId task) = Some task" and pend: "status task = Pending"
  shows "settledKept (tasks s) (tasks s')"
  unfolding settledKept_def
proof (intro allI impI)
  fix k t assume kt: "mapGet (tasks s) k = Some t \<and> status t \<noteq> Pending"
  then have "k \<noteq> taskId task" using mine pend by auto
  then show "mapGet (tasks s') k = Some t" using executeTask_other[OF ex] kt by simp
qed

lemma executeEach_inv:
  assumes "wfTasks (tasks s)"
    and "\<forall>t \<in> set ts. mapGet (tasks s) (taskId t) = Some t \<and> isReady (tasks s) t"
    and "distinct (map taskId ts)"
  shows "runInvariant (tasks s) (snd (executeEach env ts s))"
  using assms
proof (induction ts arbitrary: s)
  case Nil
  then show ?case by (simp add: runInvariant_def settledKept_refl)
next
  case (Cons task rest)
  obtain c s' where ex: "executeTask env DevSession task s = (c, s')"
    by (cases "executeTask env DevSession task s")
  have here: "readyAt (task, tasks s)"
    using Cons.prems(2) by (simp add: readyAt_def)
  have wf': "wfTasks (tasks s')" using executeTask_wf[OF ex Cons.prems(1)] .
  have pend: "status task = Pending" and mine: "mapGet (tasks s) (taskId task) = Some task"
    using Cons.prems(2) by (auto simp: isReady_iff)
  have kept: "settledKept (tasks s) (tasks s')"
    using executeTask_settledKept[OF ex mine pend] .
  show ?case
  proof (cases "c = Normal")
    case False
    with ex here wf' kept show ?thesis by (cases c) (simp_all add: runInvariant_def)
  next
    case True
    have keep: "\<forall>t \<in> set rest. mapGet (tasks s') (taskId t) = Some t \<and> isReady (tasks s') t"
    proof
      fix t assume t: "t \<in> set rest"
      then have ne: "taskId t \<noteq> taskId task" using Cons.prems(3) by (auto simp: image_iff)
      have old: "mapGet (tasks s) (taskId t) = Some t" "isReady (tasks s) t"
        using Cons.prems(2) t by auto
      have "mapGet (tasks s') (taskId t) = Some t"
        using executeTask_other[OF ex ne] old(1) by simp
      moreover have "isReady (tasks s') t"
        unfolding isReady_iff
      proof (intro conjI ballI)
        show "status t = Pending" using old(2) by (simp add: isReady_iff)
      next
        fix depId assume d: "depId \<in> set (dependencies t)"
        then obtain dep where dep: "mapGet (tasks s) depId = Some dep" "status dep = Completed"
          using old(2) by (auto simp: isReady_iff)
        have "depId \<noteq> taskId task" using dep mine pend by auto
        then show "\<exists>dep. mapGet (tasks s') depId = Some dep \<and> status dep = Completed"
          using executeTask_other[OF ex] dep by auto
      qed
      ultimately show "mapGet (tasks s') (taskId t) = Some t \<and> isReady (tasks s') t" by simp
    qed
    obtain c2 s2 ds where rest: "executeEach env rest s' = (c2, s2, ds)"
      by (cases "executeEach env rest s'") auto
    have "runInvariant (tasks s') (snd (executeEach env rest s'))"
      using Cons.IH[OF wf' keep] Cons.prems(3) by simp
    with ex True here rest kept show ?thesis
      by (auto simp: runInvariant_def intro: settledKept_trans)
  qed
qed

lemma executeDevelopmentTasks_inv:
  assumes "wfTasks (tasks s)"
  shows "runInvariant (tasks s) (snd (executeDevelopmentTasks env s))"
  unfolding executeDevelopmentTasks_def Let_def
proof (rule executeEach_inv[OF assms])
  show "\<forall>t\<in>set (filter (\<lambda>t. assignedTo t = Developer) (getReadyTasks s)).
          mapGet (tasks s) (taskId t) = Some t \<and> isReady (tasks s) t"
    using assms by (auto simp: getReadyTasks_def getAllTasks_def wfTasks_get)
  show "distinct (map taskId (filter (\<lambda>t. assignedTo t = Developer) (getReadyTasks s)))"
    using wfTasks_distinct_ids[OF assms]
    by (simp add: getReadyTasks_def getAllTasks_def distinct_map_filter)
qed

lemma testEach_inv:
  assumes "wfTasks (tasks s)"
    and "\<forall>t \<in> set ts. mapGet (tasks s) (taskId t) = Some t \<or>
            (\<exists>t'. mapGet (tasks s) (taskId t) = Some t' \<and> status t' \<noteq> Pending)"
  shows "runInvariant (tasks s) (snd (testEach env ts s))"
  using assms
proof (induction ts arbitrary: s)
  case Nil
  then show ?case by (simp add: runInvariant_def settledKept_refl)
next
  case (Cons task rest)
  have restInv: "\<forall>t \<in> set rest. mapGet (tasks s) (taskId t) = Some t \<or>
            (\<exists>t'. mapGet (tasks s) (taskId t) = Some t' \<and> status t' \<noteq> Pending)"
    using Cons.prems(2) by simp
  show ?case
  proof (cases "find (\<lambda>t. taskId t = taskId task) (getReadyTasks s)")
    case None
    then show ?thesis using Cons.IH[OF Cons.prems(1) restInv] by simp
  next
    case (Some found)
    then have fset: "found \<in> set (getReadyTasks s)" and fid: "taskId found = taskId task"
      by (auto simp: find_Some_iff in_set_conv_nth)
    from fset have fready: "isReady (tasks s) found" and fmem: "found \<in> set (mapValues (tasks s))"
      by (auto simp: getReadyTasks_def getAllTasks_def)
    have fget: "mapGet (tasks s) (taskId found) = Some found"
      using wfTasks_get[OF Cons.prems(1) fmem] .
    have fpend: "status found = Pending" using fready by (simp add: isReady_iff)
    have "mapGet (tasks s) (taskId task) = Some task"
      using Cons.prems(2) fget fid fpend by auto
    then have same: "found = task" using fget fid by simp
    have mine: "mapGet (tasks s) (taskId task) = Some task" and pend: "status task = Pending"
      and ready: "isReady (tasks s) task"
      using same fget fpend fready by auto
    have here: "readyAt (task, tasks s)" using mine ready by (simp add: readyAt_def)
    obtain c s' where ex: "executeTask env TestSession task s = (c, s')"
      by (cases "executeTask env TestSession task s")
    have wf': "wfTasks (tasks s')" using executeTask_wf[OF ex Cons.prems(1)] .
    have kept: "settledKept (tasks s) (tasks s')"
      using executeTask_settledKept[OF ex mine pend] .
    show ?thesis
    proof (cases "c = Normal")
      case False
      with ex here wf' kept Some show ?thesis by (cases c) (simp_all add: runInvariant_def)
    next
      case True
      have keep: "\<forall>t \<in> set rest. mapGet (tasks s') (taskId t) = Some t \<or>
            (\<exists>t'. mapGet (tasks s') (taskId t) = Some t' \<and> status t' \<noteq> Pending)"
      proof
        fix t assume t: "t \<in> set rest"
        show "mapGet (tasks s') (taskId t) = Some t \<or>
            (\<exists>t'. mapGet (tasks s') (taskId t) = Some t' \<and> status t' \<noteq> Pending)"
        proof (cases "taskId t = taskId task")
          case True
          then show ?thesis using executeTask_self[OF ex mine] by simp
        next
          case False
          then show ?thesis using executeTask_other[OF ex False] restInv t by simp
        qed
      qed
      obtain c2 s2 ds where rest: "testEach env rest s' = (c2, s2, ds)"
        by (cases "testEach env rest s'") auto
      have "runInvariant (tasks s') (snd (testEach env rest s'))"
        using Cons.IH[OF wf' keep] .
      with ex True here rest kept Some show ?thesis
        by (auto simp: runInvariant_def intro: settledKept_trans)
    qed
  qed
qed

lemma executeTestingTasks_inv:
  assumes "wfTasks (tasks s)"
  shows "runInvariant (tasks s) (snd (executeTestingTasks env s))"
  unfolding executeTestingTasks_def Let_def
proof (rule testEach_inv[OF assms])
  show "\<forall>t\<in>set (filter (\<lambda>t. assignedTo t = Tester) (getAllTasks s)).
          mapGet (tasks s) (taskId t) = Some t \<or>
          (\<exists>t'. mapGet (tasks s) (taskId t) = Some t' \<and> status t' \<noteq> Pending)"
    using assms by (auto simp: getAllTasks_def wfTasks_get)
qed

lemma executeAllTasks_inv:
  assumes "wfTasks (tasks s)"
  shows "runInvariant (tasks s) (snd (executeAllTasks env s))"
proof -
  obtain c s' ds where dev: "executeDevelopmentTasks env s = (c, s', ds)"
    by (cases "executeDevelopmentTasks env s") auto
  have d: "list_all readyAt ds" "wfTasks (tasks s')" "settledKept (tasks s) (tasks s')"
    using executeDevelopmentTasks_inv[OF assms, of env] dev by (simp_all add: runInvariant_def)
  show ?thesis
  proof (cases "c = Normal")
    case False
    with dev d show ?thesis by (cases c) (simp_all add: executeAllTasks_def runInvariant_def)
  next
    case True
    obtain c2 s2 ds2 where tst: "executeTestingTasks env s' = (c2, s2, ds2)"
      by (cases "executeTestingTasks env s'") auto
    have "runInvariant (tasks s') (snd (executeTestingTasks env s'))"
      using executeTestingTasks_inv[OF d(2)] .
    with dev True tst d show ?thesis
      by (auto simp: executeAllTasks_def runInvariant_def intro: settledKept_trans)
  qed
qed


lemma built_wf: "built env s \<Longrightarrow> wfTasks (tasks s)"
proof (induction rule: built.induct)
  case (built_new path)
  show ?case by (simp add: newTaskManager_def wfTasks_def)
next
  case (built_add s task)
  then show ?case by (simp add: addTask_tasks wfTasks_mapSet)
next
  case (built_dev s)
  then show ?case using executeDevelopmentTasks_inv[of s env] by (simp add: runInvariant_def)
next
  case (built_test s)
  then show ?case using executeTestingTasks_inv[of s env] by (simp add: runInvariant_def)
next
  case (built_all s)
  then show ?case using executeAllTasks_inv[of s env] by (simp add: runInvariant_def)
qed

lemma readyAt_safe: "readyAt d \<Longrightarrow> selectedFromReady d \<and> dependenciesCompleted d"
  unfolding readyAt_def selectedFromReady_def dependenciesCompleted_def mapValues_def
  by (auto simp: isReady_iff dest!: mapGet_Some_mem intro: image_eqI[where x = "(taskId (fst d), fst d)"])

lemma addTask_calm:
  "\<forall>n. writeSucceeds env n \<Longrightarrow> fst (addTask env task s) = Normal"
  by (simp add: addTask_def saveLog_def Let_def)

lemma addEach_tasks:
  "\<forall>n. writeSucceeds env n \<Longrightarrow>
   fst (addEach env ts s) = Normal \<and>
   tasks (snd (addEach env ts s)) = foldl (\<lambda>m t. mapSet (taskId t) t m) (tasks s) ts"
proof (induction ts arbitrary: s)
  case Nil
  show ?case by simp
next
  case (Cons t ts)
  obtain c s' where a: "addTask env t s = (c, s')" by (cases "addTask env t s")
  have "c = Normal" using addTask_calm[OF Cons.prems, of t s] a by simp
  moreover have "tasks s' = mapSet (taskId t) t (tasks s)"
    using addTask_tasks[of env t s] a by simp
  ultimately show ?case using a Cons.IH[OF Cons.prems, of s'] by simp
qed

lemma createSampleTasks_tasks:
  "fst (createSampleTasks calmEnv emptyManager) = Normal \<and>
   tasks (snd (createSampleTasks calmEnv emptyManager)) = tasks sampleManager"
proof -
  have "\<forall>n. writeSucceeds calmEnv n" by (simp add: calmEnv_def)
  from addEach_tasks[OF this, of sampleTasks emptyManager] show ?thesis
    by (simp add: createSampleTasks_def sampleManager_def sampleTasks_def mkTask_def
                  emptyManager_def newTaskManager_def)
qed

lemma sample_wf: "wfTasks (tasks sampleManager)"
  by code_simp

lemma sample_run_ids:
  "map (\<lambda>d. taskId (fst d)) (dispatches (executeAllTasks calmEnv sampleManager)) = [''T1'', ''T2'', ''T3'']"
  by code_simp

section \<open>Dependency safety of the orchestrator\<close>

text \<open>
  Claim C1. Whenever the orchestrator hands a task to \<^verbatim>\<open>executeTask\<close>, in
  \<^verbatim>\<open>executeDevelopmentTasks\<close>, in \<^verbatim>\<open>executeTestingTasks\<close> or in their sequence, the
  task is one that \<^verbatim>\<open>getReadyTasks()\<close> returns on the task map of that moment, and every
  id in its dependencies refers to a task of that map whose status is completed. The task
  map is assumed keyed by task id, as it is in every task manager the orchestrator can hold
  (\<open>built_wf\<close>): \<^verbatim>\<open>addTask\<close> stores a task under its id, and the orchestrator's
  updates never change an id. The development loop takes
  its snapshot of ready tasks once, before the first dispatch; the tasks of the snapshot
  stay ready because executing one of them changes only that task.
\<close>

theorem dependency_safety:
  assumes "wfTasks (tasks s)"
  shows "(\<forall>d \<in> set (dispatches (executeDevelopmentTasks env s)).
            selectedFromReady d \<and> dependenciesCompleted d) \<and>
         (\<forall>d \<in> set (dispatches (executeTestingTasks env s)).
            selectedFromReady d \<and> dependenciesCompleted d) \<and>
         (\<forall>d \<in> set (dispatches (executeAllTasks env s)).
            selectedFromReady d \<and> dependenciesCompleted d)"
  using executeDevelopmentTasks_inv[OF assms, of env] executeTestingTasks_inv[OF assms, of env]
    executeAllTasks_inv[OF assms, of env]
  by (auto simp: runInvariant_def dispatches_def list_all_iff dest: readyAt_safe)

theorem dependency_safety_witness:
  "wfTasks (tasks sampleManager) \<and>
   map (\<lambda>d. taskId (fst d)) (dispatches (executeAllTasks calmEnv sampleManager))
     = [''T1'', ''T2'', ''T3''] \<and>
   list_all (\<lambda>d. selectedFromReady d \<and> dependenciesCompleted d)
     (dispatches (executeAllTasks calmEnv sampleManager))"
  using dependency_safety[OF sample_wf, of calmEnv] sample_run_ids
  by (simp add: sample_wf list_all_iff)

section \<open>Adding and updating tasks\<close>

text \<open>
  Claim C2, as amended. \<^verbatim>\<open>addTask\<close> makes no check for a duplicate id and none for a
  dependency cycle: it always stores the task under its id, replacing in place a task
  already held under that id and appending otherwise; every other entry is unchanged. The
  only failure is a rejected write of the log, after the map has been changed.
\<close>

theorem addTask_unchecked:
  "getTask (snd (addTask env task s)) (taskId task) = Some task \<and>
   (\<forall>k. k \<noteq> taskId task \<longrightarrow> getTask (snd (addTask env task s)) k = getTask s k) \<and>
   mapKeys (tasks (snd (addTask env task s))) =
     (if taskId task \<in> set (mapKeys (tasks s)) then mapKeys (tasks s)
      else mapKeys (tasks s) @ [taskId task]) \<and>
   fst (addTask env task s) =
     (if writeSucceeds env (ticks s + 1) then Normal else Throws (WriteFailed (logFile s)))"
  by (simp add: getTask_def addTask_tasks mapGet_mapSet mapKeys_def mapSet_keys)
     (simp add: addTask_def saveLog_def Let_def)

theorem addTask_unchecked_witness:
  "getTask (snd (addTask calmEnv cyclicT6 sampleManager)) ''T6'' = Some cyclicT6 \<and>
   getTask (snd (addTask calmEnv cyclicT6 sampleManager)) ''T5'' = getTask sampleManager ''T5'' \<and>
   mapKeys (tasks (snd (addTask calmEnv cyclicT6 sampleManager)))
     = [''T1'', ''T2'', ''T3'', ''T4'', ''T5'', ''T6''] \<and>
   fst (addTask calmEnv cyclicT6 sampleManager) = Normal"
proof -
  have "getTask sampleManager ''T5'' = Some (mkTask ''T5'' Medium Tester Pending [''T4''])"
    and "mapKeys (tasks sampleManager) = [''T1'', ''T2'', ''T3'', ''T4'', ''T5'']"
    and "taskId cyclicT6 = ''T6''" and "writeSucceeds calmEnv (ticks sampleManager + 1)"
    by code_simp+
  then show ?thesis using addTask_unchecked[of calmEnv cyclicT6 sampleManager] by simp
qed

text \<open>
  The claim as stated (a duplicate id fails with \<^verbatim>\<open>DuplicateId\<close>, a cycle fails with
  \<^verbatim>\<open>CyclicDependency\<close>, the task graph unchanged) fails on the sample graph: adding a
  second task with id \<open>T1\<close> that depends on itself returns normally and replaces \<open>T1\<close>.
\<close>

theorem addTask_duplicate_counterexample:
  "getTask sampleManager ''T1'' = Some (mkTask ''T1'' High Developer Pending []) \<and>
   fst (addTask calmEnv duplicateOfT1 sampleManager) = Normal \<and>
   getTask (snd (addTask calmEnv duplicateOfT1 sampleManager)) ''T1'' = Some duplicateOfT1 \<and>
   tasks (snd (addTask calmEnv duplicateOfT1 sampleManager)) \<noteq> tasks sampleManager"
  by code_simp

text \<open>
  Claim C5, as amended. \<^verbatim>\<open>updateTask\<close> with an id that the map does not hold returns
  normally, without raising anything, and leaves the task manager unchanged (the log is not
  rewritten either).
\<close>

theorem updateTask_unknown_id:
  "getTask s k = None \<Longrightarrow> updateTask env k updates s = (Normal, s)"
  by (simp add: getTask_def updateTask_def)

theorem updateTask_unknown_id_witness:
  "getTask sampleManager ''T9'' = None \<and>
   updateTask calmEnv ''T9'' (noUpdates\<lparr> updStatus := Some Completed \<rparr>) sampleManager
     = (Normal, sampleManager)"
proof -
  have h: "getTask sampleManager ''T9'' = None" by code_simp
  show ?thesis using h updateTask_unknown_id[OF h] by simp
qed

text \<open>
  The claim as stated (an \<^verbatim>\<open>UnknownTask\<close> error is propagated to the caller rather than
  silently doing nothing) fails: on the empty task manager the call completes normally.
\<close>

theorem updateTask_unknown_id_counterexample:
  "getTask emptyManager ''T1'' = None \<and>
   fst (updateTask calmEnv ''T1'' retried emptyManager) = Normal \<and>
   snd (updateTask calmEnv ''T1'' retried emptyManager) = emptyManager"
  by code_simp

section \<open>The ready tasks\<close>

text \<open>
  Claim C3, as amended. \<^verbatim>\<open>getReadyTasks()\<close> returns exactly the pending tasks all of
  whose dependencies are held by the map with status completed, in the insertion order of
  the map; the priority plays no part in the order.
\<close>

theorem getReadyTasks_insertion_order:
  "getReadyTasks s =
     filter (\<lambda>t. status t = Pending \<and>
                 (\<forall>depId \<in> set (dependencies t).
                    \<exists>dep. getTask s depId = Some dep \<and> status dep = Completed))
            (map snd (tasks s))"
  by (auto simp: getReadyTasks_def getAllTasks_def mapValues_def getTask_def isReady_iff
            intro!: filter_cong)

theorem getReadyTasks_insertion_order_witness:
  "map taskId
     (filter (\<lambda>t. status t = Pending \<and>
                 (\<forall>depId \<in> set (dependencies t).
                    \<exists>dep. getTask ranManager depId = Some dep \<and> status dep = Completed))
        (map snd (tasks ranManager))) = [''T4'']"
proof -
  have "map taskId (getReadyTasks ranManager) = [''T4'']"
    by code_simp
  then show ?thesis using getReadyTasks_insertion_order[of ranManager] by simp
qed

text \<open>
  The claim as stated (ordered by priority, high first) fails when a low-priority task was
  added before a high-priority one: both are ready and the low-priority task comes first.
\<close>

theorem getReadyTasks_priority_counterexample:
  "map (\<lambda>t. (taskId t, priority t)) (getReadyTasks lowThenHigh) = [(''A'', Low), (''B'', High)] \<and>
   \<not> orderedByPriority (getReadyTasks lowThenHigh)"
  by code_simp

section \<open>Tasks in a terminal state\<close>

text \<open>
  Claim C4, as amended. The task manager has no guard on terminal states and the status
  type has no \<^verbatim>\<open>timed_out\<close>: \<^verbatim>\<open>updateTask\<close> overwrites the named fields of whatever
  task is held under the id, whatever its status. What holds is that the orchestrator's own
  dispatch (\<^verbatim>\<open>executeDevelopmentTasks\<close>, \<^verbatim>\<open>executeTestingTasks\<close> and their sequence)
  updates only tasks that are pending when handed to \<^verbatim>\<open>executeTask\<close>: a task that is
  completed or failed (or in any status but pending) when a run starts is held unchanged
  when it ends. The task map is assumed keyed by task id.
\<close>

theorem updates_ignore_status:
  "(getTask s k = Some t \<longrightarrow>
      getTask (snd (updateTask env k updates s)) k = Some (assign t updates)) \<and>
   (wfTasks (tasks s) \<longrightarrow>
      settledKept (tasks s) (tasks (fst (snd (executeDevelopmentTasks env s)))) \<and>
      settledKept (tasks s) (tasks (fst (snd (executeTestingTasks env s)))) \<and>
      settledKept (tasks s) (tasks (fst (snd (executeAllTasks env s)))))"
proof (intro conjI impI)
  assume "getTask s k = Some t"
  then show "getTask (snd (updateTask env k updates s)) k = Some (assign t updates)"
    by (simp add: getTask_def updateTask_tasks mapGet_mapSet)
next
  assume w: "wfTasks (tasks s)"
  show "settledKept (tasks s) (tasks (fst (snd (executeDevelopmentTasks env s))))"
    using executeDevelopmentTasks_inv[OF w, of env] by (simp add: runInvariant_def)
  show "settledKept (tasks s) (tasks (fst (snd (executeTestingTasks env s))))"
    using executeTestingTasks_inv[OF w, of env] by (simp add: runInvariant_def)
  show "settledKept (tasks s) (tasks (fst (snd (executeAllTasks env s))))"
    using executeAllTasks_inv[OF w, of env] by (simp add: runInvariant_def)
qed

theorem updates_ignore_status_witness:
  "getTask failedT1 ''T1'' = Some (mkTask ''T1'' High Developer Failed []) \<and>
   getTask (snd (updateTask calmEnv ''T1'' retried failedT1)) ''T1''
     = Some (assign (mkTask ''T1'' High Developer Failed []) retried) \<and>
   wfTasks (tasks ranManager) \<and>
   map_option status (getTask ranManager ''T1'') = Some Completed \<and>
   getTask (fst (snd (executeAllTasks calmEnv ranManager))) ''T1'' = getTask ranManager ''T1''"
proof -
  have a: "getTask failedT1 ''T1'' = Some (mkTask ''T1'' High Developer Failed [])"
    by code_simp
  have w: "wfTasks (tasks ranManager)"
    by code_simp
  have c: "map_option status (getTask ranManager ''T1'') = Some Completed"
    by code_simp
  then obtain x where x: "mapGet (tasks ranManager) ''T1'' = Some x" "status x \<noteq> Pending"
    by (auto simp: getTask_def)
  have "settledKept (tasks ranManager) (tasks (fst (snd (executeAllTasks calmEnv ranManager))))"
    using updates_ignore_status[of ranManager "''T1''" x calmEnv retried] w by simp
  then have d: "getTask (fst (snd (executeAllTasks calmEnv ranManager))) ''T1'' = getTask ranManager ''T1''"
    using x by (simp add: settledKept_def getTask_def)
  show ?thesis
    using a w c d
      updates_ignore_status[of failedT1 "''T1''" "mkTask ''T1'' High Developer Failed []" calmEnv retried]
    by simp
qed

text \<open>
  The claim as stated (no operation mutates a task once it is completed or failed; no
  transition from failed to running) fails: \<^verbatim>\<open>updateTask\<close> puts the failed task \<open>T1\<close>
  back in progress, in place, and rewrites its description.
\<close>

theorem terminal_task_mutated_counterexample:
  "map_option status (getTask failedT1 ''T1'') = Some Failed \<and>
   map_option status (getTask (snd (updateTask calmEnv ''T1'' retried failedT1)) ''T1'')
     = Some InProgress \<and>
   map_option description (getTask (snd (updateTask calmEnv ''T1'' retried failedT1)) ''T1'')
     = Some ''rewritten'' \<and>
   map_option description (getTask failedT1 ''T1'') = Some ''task T1''"
  by code_simp

section \<open>Timeouts in the parallel development manager\<close>

lemma settle_settled: "settled (settle v w) \<noteq> None"
  by (simp add: settle_def split: option.splits)

lemma settle_sticky: "settled w = Some v \<Longrightarrow> settle u w = w"
  by (simp add: settle_def)

lemma onTaskEvent_armed: "armed w \<Longrightarrow> armed (onTaskEvent w e)"
  by (cases e) (auto simp: armed_def Let_def settle_def split: option.splits)

lemma foldl_onTaskEvent_armed: "armed w \<Longrightarrow> armed (foldl onTaskEvent w es)"
  by (induction es arbitrary: w) (simp_all add: onTaskEvent_armed)

lemma awaitTask_settles: "awaitTask events \<noteq> None"
proof -
  have "armed (foldl onTaskEvent waiting events)"
    by (rule foldl_onTaskEvent_armed) (simp add: armed_def waiting_def)
  then show ?thesis
    by (auto simp: awaitTask_def timerFires_def armed_def settle_def split: option.splits)
qed

lemma foldl_onTaskEvent_quiet:
  "\<not> list_ex terminalEvent es \<Longrightarrow>
     settled (foldl onTaskEvent w es) = settled w \<and>
     timerCleared (foldl onTaskEvent w es) = timerCleared w"
proof (induction es arbitrary: w)
  case Nil
  then show ?case by simp
next
  case (Cons e es)
  then show ?case by (cases e) simp_all
qed

lemma awaitTask_timeout:
  "\<not> list_ex terminalEvent events \<Longrightarrow> awaitTask events = Some (Inl taskTimeoutText)"
  using foldl_onTaskEvent_quiet[of events waiting]
  by (simp add: awaitTask_def timerFires_def settle_def waiting_def)

lemma finishTask_timeout:
  "\<not> list_ex terminalEvent events \<Longrightarrow>
   finishTask events sendRejected task =
     Some (task\<lparr> devStatus := DevFailed, devError := Some taskTimeoutText \<rparr>)"
  by (simp add: finishTask_def awaitTask_timeout)

lemma finishTask_settles: "\<exists>fin. finishTask events sendRejected task = Some fin \<and>
   (devStatus fin = DevCompleted \<or> devStatus fin = DevFailed)"
  using awaitTask_settles[of events]
  by (auto simp: finishTask_def Let_def split: option.splits sum.splits)

lemma executeDevTask_result: "laneResult env {k} m (executeDevTask env k m)"
proof (cases "mapGet m k")
  case None
  then show ?thesis by (simp add: laneResult_def executeDevTask_def finished_def)
next
  case (Some task)
  obtain fin where fin: "finishTask (eventsFor env k) (sendRejectedFor env k) task = Some fin"
    using finishTask_settles by blast
  have "k \<in> fst ` set m" using Some mapGet_None_iff[of m k] by auto
  then have "mapKeys (mapSet k fin m) = mapKeys m" by (simp add: mapKeys_def mapSet_keys)
  then show ?thesis using Some fin
    by (simp add: laneResult_def executeDevTask_def finished_def mapGet_mapSet)
qed

lemma finished_cong: "mapGet m' k = mapGet m k \<Longrightarrow> finished env m' k = finished env m k"
  by (simp add: finished_def)

lemma executeTasksInSession_result:
  "distinct ks \<Longrightarrow> laneResult env (set ks) m (executeTasksInSession env ks m)"
proof (induction ks arbitrary: m)
  case Nil
  then show ?case by (simp add: laneResult_def)
next
  case (Cons k ks)
  obtain c m' where step: "executeDevTask env k m = (c, m')"
    by (cases "executeDevTask env k m")
  have one: "laneResult env {k} m (c, m')" using executeDevTask_result[of env k m] step by simp
  have rest: "laneResult env (set ks) m' (executeTasksInSession env ks m')"
    using Cons.IH[of m'] Cons.prems by simp
  have "\<forall>k'. k' \<in> set ks \<longrightarrow> finished env m' k' = finished env m k'"
    using one Cons.prems by (auto simp: laneResult_def intro!: finished_cong)
  with one rest step show ?case
    by (auto simp: laneResult_def)
qed

lemma runLanes_result:
  "distinct (concat lanes) \<Longrightarrow> laneResult env (set (concat lanes)) m (runLanes env lanes m)"
proof (induction lanes arbitrary: m)
  case Nil
  then show ?case by (simp add: laneResult_def)
next
  case (Cons lane lanes)
  obtain c m' where step: "executeTasksInSession env lane m = (c, m')"
    by (cases "executeTasksInSession env lane m")
  have one: "laneResult env (set lane) m (c, m')"
    using executeTasksInSession_result[of lane env m] step Cons.prems by simp
  obtain c2 m2 where rest: "runLanes env lanes m' = (c2, m2)"
    by (cases "runLanes env lanes m'")
  have two: "laneResult env (set (concat lanes)) m' (c2, m2)"
    using Cons.IH[of m'] Cons.prems rest by simp
  have disj: "\<forall>k'. k' \<in> set (concat lanes) \<longrightarrow> k' \<notin> set lane"
    using Cons.prems by auto
  have "\<forall>k'. k' \<in> set (concat lanes) \<longrightarrow> finished env m' k' = finished env m k'"
  proof (intro allI impI)
    fix k' assume "k' \<in> set (concat lanes)"
    then have "k' \<notin> set lane" using disj by blast
    then have "mapGet m' k' = mapGet m k'" using one by (simp add: laneResult_def)
    then show "finished env m' k' = finished env m k'" by (rule finished_cong)
  qed
  with one two step rest show ?case
    by (auto simp: laneResult_def)
qed


lemma tasksByType_lanes:
  assumes "distinct (mapKeys m)"
  shows "distinct (concat (map (tasksByType m) [Frontend, Backend, Database, TestingTasks]))"
    and "set (concat (map (tasksByType m) [Frontend, Backend, Database, TestingTasks])) = set (mapKeys m)"
proof -
  have d: "\<And>ty. distinct (tasksByType m ty)"
    using assms by (simp add: tasksByType_def mapKeys_def distinct_map_filter)
  have u: "\<And>k ty ty'. k \<in> set (tasksByType m ty) \<Longrightarrow> k \<in> set (tasksByType m ty') \<Longrightarrow> ty = ty'"
  proof -
    fix k ty ty'
    assume "k \<in> set (tasksByType m ty)" and "k \<in> set (tasksByType m ty')"
    then obtain t t' where "(k, t) \<in> set m" "devType t = ty" "(k, t') \<in> set m" "devType t' = ty'"
      by (auto simp: tasksByType_def)
    moreover have "mapGet m k = Some t" "mapGet m k = Some t'"
      using assms calculation by (auto simp: mapKeys_def intro!: mapGet_distinct)
    ultimately show "ty = ty'" by simp
  qed
  show "distinct (concat (map (tasksByType m) [Frontend, Backend, Database, TestingTasks]))"
    using d u by (auto simp del: distinct_append simp: distinct_append)
  show "set (concat (map (tasksByType m) [Frontend, Backend, Database, TestingTasks])) = set (mapKeys m)"
  proof
    show "set (concat (map (tasksByType m) [Frontend, Backend, Database, TestingTasks])) \<subseteq> set (mapKeys m)"
      by (auto simp: tasksByType_def mapKeys_def)
    show "set (mapKeys m) \<subseteq> set (concat (map (tasksByType m) [Frontend, Backend, Database, TestingTasks]))"
    proof
      fix k assume "k \<in> set (mapKeys m)"
      then obtain t where kt: "(k, t) \<in> set m" by (auto simp: mapKeys_def)
      then have "k \<in> set (tasksByType m (devType t))"
        by (force simp: tasksByType_def)
      then show "k \<in> set (concat (map (tasksByType m) [Frontend, Backend, Database, TestingTasks]))"
        by (cases "devType t") auto
    qed
  qed
qed

lemma executeTasksInParallel_result:
  assumes "distinct (mapKeys m)"
  shows "laneResult env (set (mapKeys m)) m (executeTasksInParallel env m)"
  using runLanes_result[OF tasksByType_lanes(1)[OF assms], of env m] tasksByType_lanes(2)[OF assms]
  by (simp add: executeTasksInParallel_def)

text \<open>
  Claim C6, as amended. When the timer of a task fires before a terminal event
  (\<^verbatim>\<open>session.idle\<close> or \<^verbatim>\<open>error\<close>) arrives, the task's status becomes failed, with the
  timeout message as its error: the status type has no \<^verbatim>\<open>timed_out\<close>, and a timeout is
  told from another failure by the message only. The lane goes on with its next task and the
  other lanes are not affected: the whole run completes, and every task of the map ends
  completed or failed as its own events dictate, whatever happened to the others. The
  keys of the map are distinct, as those of a \<^verbatim>\<open>Map\<close> are.
\<close>

theorem timeout_marks_failed:
  assumes "distinct (mapKeys m)" and "mapGet m k = Some task"
    and "\<not> list_ex terminalEvent (eventsFor env k)"
  shows "fst (executeTasksInParallel env m) = Normal \<and>
         mapGet (snd (executeTasksInParallel env m)) k
           = Some (task\<lparr> devStatus := DevFailed, devError := Some taskTimeoutText \<rparr>) \<and>
         mapKeys (snd (executeTasksInParallel env m)) = mapKeys m \<and>
         (\<forall>k' task'. mapGet m k' = Some task' \<longrightarrow>
            (\<exists>fin. finishTask (eventsFor env k') (sendRejectedFor env k') task' = Some fin \<and>
                   mapGet (snd (executeTasksInParallel env m)) k' = Some fin \<and>
                   (devStatus fin = DevCompleted \<or> devStatus fin = DevFailed)))"
proof -
  have r: "laneResult env (set (mapKeys m)) m (executeTasksInParallel env m)"
    using executeTasksInParallel_result[OF assms(1)] .
  have all: "\<And>k' task'. mapGet m k' = Some task' \<Longrightarrow>
      mapGet (snd (executeTasksInParallel env m)) k'
        = finishTask (eventsFor env k') (sendRejectedFor env k') task'"
  proof -
    fix k' task' assume g: "mapGet m k' = Some task'"
    then have "k' \<in> set (mapKeys m)" using mapGet_None_iff[of m k'] by (auto simp: mapKeys_def)
    then show "mapGet (snd (executeTasksInParallel env m)) k'
        = finishTask (eventsFor env k') (sendRejectedFor env k') task'"
      using r g by (simp add: laneResult_def finished_def)
  qed
  show ?thesis
  proof (intro conjI allI impI)
    show "fst (executeTasksInParallel env m) = Normal" using r by (simp add: laneResult_def)
    show "mapGet (snd (executeTasksInParallel env m)) k
           = Some (task\<lparr> devStatus := DevFailed, devError := Some taskTimeoutText \<rparr>)"
      using all[OF assms(2)] finishTask_timeout[OF assms(3)] by simp
    show "mapKeys (snd (executeTasksInParallel env m)) = mapKeys m"
      using r by (simp add: laneResult_def)
  next
    fix k' task' assume g: "mapGet m k' = Some task'"
    show "\<exists>fin. finishTask (eventsFor env k') (sendRejectedFor env k') task' = Some fin \<and>
                   mapGet (snd (executeTasksInParallel env m)) k' = Some fin \<and>
                   (devStatus fin = DevCompleted \<or> devStatus fin = DevFailed)"
      using all[OF g] finishTask_settles[of "eventsFor env k'" "sendRejectedFor env k'" task'] by auto
  qed
qed

theorem timeout_marks_failed_witness:
  "distinct (mapKeys threeDevTasks) \<and>
   mapGet threeDevTasks ''FE-001'' = Some (devTask ''FE-001'' Frontend) \<and>
   \<not> list_ex terminalEvent (eventsFor stallingEnv ''FE-001'') \<and>
   mapGet (snd (executeTasksInParallel stallingEnv threeDevTasks)) ''FE-001''
     = Some ((devTask ''FE-001'' Frontend)\<lparr> devStatus := DevFailed, devError := Some taskTimeoutText \<rparr>) \<and>
   map (\<lambda>p. (fst p, devStatus (snd p))) (snd (executeTasksInParallel stallingEnv threeDevTasks))
     = [(''FE-001'', DevFailed), (''BE-001'', DevCompleted), (''FE-002'', DevCompleted)]"
proof -
  have h: "distinct (mapKeys threeDevTasks)"
    "mapGet threeDevTasks ''FE-001'' = Some (devTask ''FE-001'' Frontend)"
    "\<not> list_ex terminalEvent (eventsFor stallingEnv ''FE-001'')"
    by code_simp+
  have e: "map (\<lambda>p. (fst p, devStatus (snd p))) (snd (executeTasksInParallel stallingEnv threeDevTasks))
     = [(''FE-001'', DevFailed), (''BE-001'', DevCompleted), (''FE-002'', DevCompleted)]"
    by code_simp
  show ?thesis
    using h e timeout_marks_failed[OF h] by simp
qed

text \<open>
  The claim as stated (the status becomes \<^verbatim>\<open>timed_out\<close>, a status distinct from failed)
  fails: a task whose session delivers nothing before the timer fires ends with status
  failed.
\<close>

theorem timeout_status_counterexample:
  "map_option devStatus
     (mapGet (snd (executeTasksInParallel silentEnv [(''DB-001'', devTask ''DB-001'' Database)])) ''DB-001'')
     = Some DevFailed \<and>
   map_option devError
     (mapGet (snd (executeTasksInParallel silentEnv [(''DB-001'', devTask ''DB-001'' Database)])) ''DB-001'')
     = Some (Some taskTimeoutText)"
  by code_simp

section \<open>Waiting for a session\<close>

















section \<open>The test cycle\<close>














section \<open>The log snapshot\<close>














section \<open>Progress\<close>

lemma powi_bitlen:
  assumes "0 < a"
  shows "(2::rat) powi (bitlen a - 1) \<le> of_int a" and "of_int a < (2::rat) powi bitlen a"
proof -
  have b: "2 ^ nat (bitlen a - 1) \<le> a" "a < 2 ^ nat (bitlen a)"
    using bitlen_bounds[OF assms] by simp_all
  have p: "1 \<le> bitlen a"
    using assms bitlen_eq_zero_iff[of a] bitlen_nonneg[of a] by linarith
  have "(2::rat) powi (bitlen a - 1) = of_int (2 ^ nat (bitlen a - 1))"
    using p by (simp add: power_int_nonneg_exp)
  also have "\<dots> \<le> of_int a" using b(1) by (simp only: of_int_le_iff)
  finally show "(2::rat) powi (bitlen a - 1) \<le> of_int a" .
  have "(of_int a :: rat) < of_int (2 ^ nat (bitlen a))" using b(2) by (simp only: of_int_less_iff)
  also have "\<dots> = 2 powi bitlen a" using p by (simp add: power_int_nonneg_exp)
  finally show "of_int a < (2::rat) powi bitlen a" .
qed

lemma powi_step: "(2::rat) powi (n + 1) = 2 * 2 powi n"
  by (simp add: power_int_add)

lemma powi_pred: "(2::rat) powi (n - 1) = 2 powi n / 2"
  by (simp add: power_int_diff)

lemma exponentOf_bounds:
  assumes "0 < x"
  shows "2 powi exponentOf x \<le> x" and "x < 2 powi (exponentOf x + 1)"
proof -
  obtain a b where q: "quotient_of x = (a, b)" by (cases "quotient_of x")
  have bpos: "0 < b" using quotient_of_denom_pos[OF q] .
  have x: "x = of_int a / of_int b" using quotient_of_div[OF q] .
  have apos: "0 < a" using assms bpos x by (simp add: zero_less_divide_iff)
  define d where "d = bitlen a - bitlen b"
  have A: "(2::rat) powi (bitlen a - 1) \<le> of_int a" "of_int a < (2::rat) powi bitlen a"
    using powi_bitlen[OF apos] by simp_all
  have B: "(2::rat) powi (bitlen b - 1) \<le> of_int b" "of_int b < (2::rat) powi bitlen b"
    using powi_bitlen[OF bpos] by simp_all
  have bq: "(0::rat) < of_int b" using bpos by simp
  have pa: "(0::rat) < 2 powi bitlen a" and pb: "(0::rat) < 2 powi bitlen b" by simp_all
  have up: "x < 2 powi (d + 1)"
  proof -
    have "(of_int a :: rat) * 2 powi bitlen b < 2 powi bitlen a * (2 * of_int b)"
    proof -
      have "(of_int a :: rat) * 2 powi bitlen b < 2 powi bitlen a * 2 powi bitlen b"
        using A(2) pb by (simp add: mult_strict_right_mono)
      also have "\<dots> = 2 powi bitlen a * (2 * 2 powi (bitlen b - 1))"
        by (simp add: powi_pred)
      also have "\<dots> \<le> 2 powi bitlen a * (2 * of_int b)"
        using B(1) pa by (simp add: mult_left_mono)
      finally show ?thesis .
    qed
    then have "(of_int a :: rat) / of_int b < 2 * (2 powi bitlen a / 2 powi bitlen b)"
      using bq pb by (simp add: field_simps)
    then show ?thesis
      unfolding x d_def by (simp add: power_int_diff powi_step)
  qed
  have lo: "2 powi (d - 1) \<le> x"
  proof -
    have "(2::rat) powi bitlen a * of_int b \<le> 2 * of_int a * 2 powi bitlen b"
    proof -
      have "(2::rat) powi bitlen a * of_int b \<le> 2 powi bitlen a * 2 powi bitlen b"
        using B(2) pa by (simp add: mult_left_mono)
      also have "\<dots> = (2 * 2 powi (bitlen a - 1)) * 2 powi bitlen b"
        by (simp add: powi_pred)
      also have "\<dots> \<le> (2 * of_int a) * 2 powi bitlen b"
        using A(1) pb by (simp add: mult_right_mono)
      finally show ?thesis by simp
    qed
    then have "((2::rat) powi bitlen a / 2 powi bitlen b) / 2 \<le> of_int a / of_int b"
      using bq pb by (simp add: field_simps)
    then show ?thesis
      unfolding x d_def by (simp add: power_int_diff powi_pred)
  qed
  have e: "exponentOf x = (if 2 powi d \<le> x then d else d - 1)"
    by (simp add: exponentOf_def q d_def Let_def)
  show "2 powi exponentOf x \<le> x" using e lo by simp
  show "x < 2 powi (exponentOf x + 1)" using e up by (auto simp: not_le)
qed


lemma exponentOf_unique:
  assumes "0 < x" and "2 powi e \<le> x" and "x < 2 powi (e + 1)"
  shows "exponentOf x = e"
proof -
  note b = exponentOf_bounds[OF assms(1)]
  have "\<not> e + 1 \<le> exponentOf x"
  proof
    assume "e + 1 \<le> exponentOf x"
    then have "(2::rat) powi (e + 1) \<le> 2 powi exponentOf x"
      by (intro power_int_increasing) simp_all
    with b(1) assms(3) show False by simp
  qed
  moreover have "\<not> exponentOf x + 1 \<le> e"
  proof
    assume "exponentOf x + 1 \<le> e"
    then have "(2::rat) powi (exponentOf x + 1) \<le> 2 powi e"
      by (intro power_int_increasing) simp_all
    with b(2) assms(2) show False by simp
  qed
  ultimately show ?thesis by simp
qed

lemma roundHalfEven_near: "\<bar>of_int (roundHalfEven q) - q\<bar> \<le> 1 / 2"
proof -
  have "of_int \<lfloor>q\<rfloor> \<le> q" "q < of_int \<lfloor>q\<rfloor> + 1" by linarith+
  then show ?thesis
    by (auto simp: roundHalfEven_def Let_def abs_le_iff)
qed

lemma roundDouble_error:
  assumes "0 < x"
  shows "\<bar>roundDouble x - x\<bar> \<le> x / 2 ^ 53"
proof -
  define u :: rat where "u = 2 powi (exponentOf x - 52)"
  have upos: "0 < u" by (simp add: u_def)
  have r: "roundDouble x = of_int (roundHalfEven (x / u)) * u"
    using assms by (simp add: roundDouble_def u_def Let_def)
  have "u = 2 powi exponentOf x / 2 ^ 52"
    by (simp add: u_def power_int_diff)
  then have ule: "u \<le> x / 2 ^ 52"
    using exponentOf_bounds(1)[OF assms] by (simp add: divide_right_mono)
  have "roundDouble x - x = (of_int (roundHalfEven (x / u)) - x / u) * u"
    using upos by (simp add: r field_simps)
  then have "\<bar>roundDouble x - x\<bar> = \<bar>of_int (roundHalfEven (x / u)) - x / u\<bar> * u"
    using upos by (simp add: abs_mult)
  also have "\<dots> \<le> (1 / 2) * u"
    using roundHalfEven_near[of "x / u"] upos by (intro mult_right_mono) simp_all
  also have "\<dots> \<le> (1 / 2) * (x / 2 ^ 52)"
    using ule by simp
  also have "\<dots> = x / 2 ^ 53" by simp
  finally show ?thesis .
qed

lemma roundDouble_zero: "roundDouble 0 = 0"
  by (simp add: roundDouble_def)


lemma percentage_error:
  fixes c n :: nat
  assumes "0 < n" and "c \<le> n"
  shows "\<bar>roundDouble (roundDouble (of_nat c / of_nat n) * 100) - 100 * of_nat c / of_nat n\<bar>
           \<le> 300 / 2 ^ 53"
proof (cases "c = 0")
  case True
  then show ?thesis by (simp add: roundDouble_zero)
next
  case False
  define q :: rat where "q = of_nat c / of_nat n"
  define y1 where "y1 = roundDouble q"
  define y where "y = roundDouble (y1 * 100)"
  have qpos: "0 < q" using False assms(1) by (simp add: q_def)
  have qle: "q \<le> 1" using assms by (simp add: q_def)
  have e1: "\<bar>y1 - q\<bar> \<le> q / 2 ^ 53"
    unfolding y1_def using roundDouble_error[OF qpos] .
  have small: "q / 2 ^ 53 < q" using qpos by simp
  have y1pos: "0 < y1" using e1 small by linarith
  have y1le: "y1 \<le> 2" using e1 small qle by linarith
  have "0 < y1 * 100" using y1pos by simp
  from roundDouble_error[OF this] have e2: "\<bar>y - y1 * 100\<bar> \<le> y1 * 100 / 2 ^ 53"
    by (simp add: y_def)
  have a: "y1 * 100 / 2 ^ 53 \<le> 200 / 2 ^ 53" using y1le by simp
  have b: "q / 2 ^ 53 \<le> 1 / 2 ^ 53" using qle by (simp add: divide_right_mono)
  have "\<bar>y - 100 * q\<bar> \<le> 300 / 2 ^ 53" using e1 e2 a b by linarith
  then show ?thesis by (simp add: y_def y1_def q_def)
qed

lemma mathRound_cases:
  fixes c n :: nat and y :: rat
  assumes n: "0 < n" "n < 2 ^ 43"
    and near: "\<bar>y - 100 * of_nat c / of_nat n\<bar> \<le> 300 / 2 ^ 53"
  defines "r \<equiv> (100 * of_nat c / of_nat n :: rat)"
  shows "(of_int \<lfloor>r + 1 / 2\<rfloor> \<noteq> r + 1 / 2 \<longrightarrow> mathRound y = \<lfloor>r + 1 / 2\<rfloor>) \<and>
         (mathRound y = \<lfloor>r + 1 / 2\<rfloor> \<or> mathRound y = \<lfloor>r + 1 / 2\<rfloor> - 1)"
proof -
  define p where "p = \<lfloor>r + 1 / 2\<rfloor>"
  define N :: rat where "N = of_nat n"
  have Npos: "0 < N" using n(1) by (simp add: N_def)
  have "N < 2 ^ 43"
  proof -
    have "(of_nat n :: rat) < of_nat (2 ^ 43)" using n(2) by (simp only: of_nat_less_iff)
    then show ?thesis by (simp add: N_def)
  qed
  then have gap: "300 / 2 ^ 53 < 1 / (2 * N)" using Npos by (simp add: field_simps)
  have fl: "of_int p \<le> r + 1 / 2" "r + 1 / 2 < of_int p + 1"
    unfolding p_def by linarith+
  have rN: "r * N = 100 * of_nat c" using Npos by (simp add: r_def N_def)
  have near': "\<bar>y - r\<bar> \<le> 300 / 2 ^ 53" using near by (simp add: r_def)
  \<comment> \<open>the distance of \<open>r + 1/2\<close> to the next integer above is a positive multiple of \<open>1 / (2 n)\<close>\<close>
  define m2 :: int where "m2 = 2 * p * int n + int n - 200 * int c"
  have m2: "of_int p + 1 - (r + 1 / 2) = of_int m2 / (2 * N)"
    using Npos rN by (simp add: m2_def N_def field_simps)
  have "0 < (of_int m2 :: rat) / (2 * N)" using fl(2) m2 by linarith
  then have "0 < m2" using Npos by (simp add: zero_less_divide_iff)
  then have "(1::rat) \<le> of_int m2" by linarith
  then have "1 / (2 * N) \<le> of_int m2 / (2 * N)" using Npos by (simp add: divide_right_mono)
  then have above: "y + 1 / 2 < of_int p + 1" using m2 gap near' by linarith
  have tiny: "(300::rat) / 2 ^ 53 < 1" by simp
  have "of_int p - 1 \<le> y + 1 / 2" using fl(1) near' tiny by linarith
  then have below: "of_int (p - 1) \<le> y + 1 / 2" by simp
  have two: "mathRound y = p \<or> mathRound y = p - 1"
  proof (cases "of_int p \<le> y + 1 / 2")
    case True
    then have "\<lfloor>y + 1 / 2\<rfloor> = p" using above by (intro floor_unique) simp_all
    then show ?thesis by (simp add: mathRound_def)
  next
    case False
    then have "\<lfloor>y + 1 / 2\<rfloor> = p - 1" using below by (intro floor_unique) simp_all
    then show ?thesis by (simp add: mathRound_def)
  qed
  have one: "of_int p \<noteq> r + 1 / 2 \<longrightarrow> mathRound y = p"
  proof
    assume ne: "of_int p \<noteq> r + 1 / 2"
    define m1 :: int where "m1 = 200 * int c + int n - 2 * p * int n"
    have m1: "r + 1 / 2 - of_int p = of_int m1 / (2 * N)"
      using Npos rN by (simp add: m1_def N_def field_simps)
    have "0 < (of_int m1 :: rat) / (2 * N)" using fl(1) ne m1 by linarith
    then have "0 < m1" using Npos by (simp add: zero_less_divide_iff)
    then have "(1::rat) \<le> of_int m1" by linarith
    then have "1 / (2 * N) \<le> of_int m1 / (2 * N)" using Npos by (simp add: divide_right_mono)
    then have "of_int p \<le> y + 1 / 2" using m1 gap near' by linarith
    then have "\<lfloor>y + 1 / 2\<rfloor> = p" using above by (intro floor_unique) simp_all
    then show "mathRound y = p" by (simp add: mathRound_def)
  qed
  show ?thesis using one two by (simp add: p_def)
qed


text \<open>
  Claim C10, as amended. \<^verbatim>\<open>getProgress()\<close> is total and never divides by zero: for an
  empty task set it returns zero in all four fields; \<^verbatim>\<open>total\<close>, \<^verbatim>\<open>completed\<close> and
  \<^verbatim>\<open>failed\<close> count exactly the tasks, the completed ones and the failed ones. For a
  non-empty task set the percentage is \<^verbatim>\<open>Math.round\<close> of the double-precision product
  \<^verbatim>\<open>(completed / total) * 100\<close>: it equals \<open>100 * completed / total\<close> rounded to the
  nearest integer whenever that quotient is not exactly half-way between two integers, and
  at a half-way point it is that rounded value or one less (for fewer than \<open>2 ^ 43\<close>
  tasks, which every \<^verbatim>\<open>Map\<close> satisfies).
\<close>

theorem getProgress_total:
  "progressTotal (getProgress s) = length (getAllTasks s) \<and>
   progressCompleted (getProgress s) = length (filter (\<lambda>t. status t = Completed) (getAllTasks s)) \<and>
   progressFailed (getProgress s) = length (filter (\<lambda>t. status t = Failed) (getAllTasks s)) \<and>
   (getAllTasks s = [] \<longrightarrow>
      getProgress s = \<lparr> progressTotal = 0, progressCompleted = 0, progressFailed = 0, percentage = 0 \<rparr>) \<and>
   (getAllTasks s \<noteq> [] \<and> length (getAllTasks s) < 2 ^ 43 \<longrightarrow>
      (of_int (roundedPercentage s) \<noteq> exactPercentage s + 1 / 2 \<longrightarrow>
         percentage (getProgress s) = roundedPercentage s) \<and>
      (percentage (getProgress s) = roundedPercentage s \<or>
       percentage (getProgress s) = roundedPercentage s - 1))"
proof (intro conjI impI)
  show "progressTotal (getProgress s) = length (getAllTasks s)"
    by (simp add: getProgress_def Let_def)
  show "progressCompleted (getProgress s) = length (filter (\<lambda>t. status t = Completed) (getAllTasks s))"
    by (simp add: getProgress_def Let_def)
  show "progressFailed (getProgress s) = length (filter (\<lambda>t. status t = Failed) (getAllTasks s))"
    by (simp add: getProgress_def Let_def)
  show "getProgress s = \<lparr> progressTotal = 0, progressCompleted = 0, progressFailed = 0, percentage = 0 \<rparr>"
    if "getAllTasks s = []"
    using that by (simp add: getProgress_def Let_def)
next
  assume a: "getAllTasks s \<noteq> [] \<and> length (getAllTasks s) < 2 ^ 43"
  define n where "n = length (getAllTasks s)"
  define c where "c = length (filter (\<lambda>t. status t = Completed) (getAllTasks s))"
  have n: "0 < n" "n < 2 ^ 43" using a by (simp_all add: n_def)
  have c: "c \<le> n" by (simp add: c_def n_def)
  have p: "percentage (getProgress s) = mathRound (roundDouble (roundDouble (of_nat c / of_nat n) * 100))"
    using n(1) by (simp add: getProgress_def Let_def n_def c_def)
  have e: "exactPercentage s = 100 * of_nat c / of_nat n"
    by (simp add: exactPercentage_def n_def c_def)
  note m = mathRound_cases[OF n percentage_error[OF n(1) c]]
  show "percentage (getProgress s) = roundedPercentage s"
    if "of_int (roundedPercentage s) \<noteq> exactPercentage s + 1 / 2"
    using that m by (simp add: p e roundedPercentage_def)
  show "percentage (getProgress s) = roundedPercentage s \<or>
        percentage (getProgress s) = roundedPercentage s - 1"
    using m by (simp add: p e roundedPercentage_def)
qed

theorem getProgress_total_witness:
  "getAllTasks emptyManager = [] \<and>
   getProgress emptyManager
     = \<lparr> progressTotal = 0, progressCompleted = 0, progressFailed = 0, percentage = 0 \<rparr> \<and>
   getAllTasks ranManager \<noteq> [] \<and> length (getAllTasks ranManager) < 2 ^ 43 \<and>
   of_int (roundedPercentage ranManager) \<noteq> exactPercentage ranManager + 1 / 2 \<and>
   roundedPercentage ranManager = 60 \<and>
   percentage (getProgress ranManager) = 60"
proof -
  have e: "getAllTasks emptyManager = []"
    by code_simp
  have l: "length (getAllTasks ranManager) = 5"
    by code_simp
  have x: "exactPercentage ranManager = 60"
    by code_simp
  have r: "roundedPercentage ranManager = 60"
    by code_simp
  have n: "getAllTasks ranManager \<noteq> []" using l by auto
  have b: "length (getAllTasks ranManager) < 2 ^ 43" unfolding l by simp
  have h: "of_int (roundedPercentage ranManager) \<noteq> exactPercentage ranManager + 1 / 2"
    unfolding r x by simp
  show ?thesis
    using e n b h r getProgress_total[of emptyManager] getProgress_total[of ranManager]
    by simp
qed

text \<open>
  The claim as stated (the percentage equals \<open>round(100 * completed / total)\<close> for every
  non-empty task set) fails at a half-way point: with 23 of 40 tasks completed the quotient
  is 57.5, which rounds to 58, but the double nearest to 23/40 times 100 is a double just
  below 57.5 and \<^verbatim>\<open>getProgress()\<close> returns 57.
\<close>

theorem percentage_rounding_counterexample:
  "getProgress fortyTasks
     = \<lparr> progressTotal = 40, progressCompleted = 23, progressFailed = 0, percentage = 57 \<rparr> \<and>
   exactPercentage fortyTasks = 115 / 2 \<and>
   roundedPercentage fortyTasks = 58"
  by code_simp

end
